theory Spec2Isabelle
  imports
    Main
    "HOL-Library.List_Lexorder"
    "HOL-Library.Char_ord"
    "HOL-Library.Product_Lexorder"
begin

section \<open>The ledger table\<close>

text \<open>
  One row of the table \<^verbatim>\<open>queue\<close> as \<^verbatim>\<open>fallbackSchema\<close> of main.go declares it. The columns
  \<^verbatim>\<open>done_at\<close>, \<^verbatim>\<open>result\<close> and \<^verbatim>\<open>next_at\<close> are nullable (\<open>None\<close> is SQL NULL), the others are
  \<^verbatim>\<open>TEXT NOT NULL\<close>. Text values are byte strings; SQLite compares them bytewise, a proper
  prefix being smaller, which is the lexicographic order on \<open>char list\<close>.
\<close>

record row =
  path :: string
  path_hash :: string
  content_hash :: string
  treatment :: string
  done_at :: "string option"
  result :: "string option"
  next_at :: "string option"

text \<open>The table is the list of its rows in insertion order.\<close>

type_synonym queue = "row list"

text \<open>\<^verbatim>\<open>PRIMARY KEY (path_hash, treatment)\<close>: no two rows share both columns.\<close>

definition primary_key :: "queue \<Rightarrow> bool" where
  "primary_key q = distinct (map (\<lambda>r. (path_hash r, treatment r)) q)"

text \<open>
  What the commands read from their surroundings: the two hash functions, \<^verbatim>\<open>filepath.Abs\<close>,
  and two readings of the clock, each in whole seconds since 1970-01-01 00:00:00 UTC:
  \<open>time_now\<close> is what \<^verbatim>\<open>time.Now()\<close> returns to the process, \<open>sqlite_now\<close> is what SQLite
  takes for \<^verbatim>\<open>'now'\<close> when it runs the statement afterwards. \<open>sqlite_datetime_other\<close> is
  the value of \<^verbatim>\<open>DATETIME('now', m)\<close> for the modifiers \<open>m\<close> whose value is not worked out
  below.
\<close>

record env =
  pathHash :: "string \<Rightarrow> string"
  fileHash :: "string \<Rightarrow> string option"
  filepath_abs :: "string \<Rightarrow> string option"
  time_now :: int
  sqlite_now :: int
  sqlite_datetime_other :: "string \<Rightarrow> string option"

datatype error =
    InsertFailed string
  | StdinError
  | PathRequired
  | PathError
  | UpdateError
  | TreatmentRequired
  | DeleteError
  | QueryError
  | InvalidShard

section \<open>enqueue\<close>

text \<open>
  The statement of \<^verbatim>\<open>doEnqueueCmd\<close> (main.go, lines 181-191):
  \<^verbatim>\<open>INSERT INTO queue ... VALUES (?, ?, ?, ?, NULL, NULL, NULL)
  ON CONFLICT(path_hash, treatment) DO UPDATE SET path = excluded.path,
  content_hash = excluded.content_hash,
  done_at = IIF(queue.content_hash = excluded.content_hash, queue.done_at, NULL), ...\<close>
  with the parameters \<open>absPath\<close>, \<open>ph\<close>, \<open>ch\<close> and the treatment. The right-hand sides of
  \<^verbatim>\<open>SET\<close> read the row as it was before the update.
\<close>

definition upsert :: "queue \<Rightarrow> string \<Rightarrow> string \<Rightarrow> string \<Rightarrow> string \<Rightarrow> queue" where
  "upsert q absPath ph ch t =
     (if \<exists>r \<in> set q. path_hash r = ph \<and> treatment r = t
      then map (\<lambda>r. if path_hash r = ph \<and> treatment r = t
                     then r\<lparr>path := absPath,
                            content_hash := ch,
                            done_at := (if content_hash r = ch then done_at r else None),
                            result := (if content_hash r = ch then result r else None),
                            next_at := (if content_hash r = ch then next_at r else None)\<rparr>
                     else r) q
      else q @ [\<lparr>path = absPath, path_hash = ph, content_hash = ch, treatment = t,
                 done_at = None, result = None, next_at = None\<rparr>])"

text \<open>
  The loop of \<^verbatim>\<open>doEnqueueCmd\<close> over the lines of standard input. Each line comes with the
  outcome of its write (\<open>True\<close>: \<^verbatim>\<open>db.Exec\<close> returned no error). An empty line, a path that
  \<^verbatim>\<open>filepath.Abs\<close> rejects and a file that cannot be hashed are skipped; a failed write
  returns at once; a successful one increments \<open>count\<close>. The table is returned as the run
  left it, also on an error.
\<close>

fun enqueueLoop ::
  "env \<Rightarrow> string \<Rightarrow> (string \<times> bool) list \<Rightarrow> queue \<Rightarrow> nat \<Rightarrow> queue \<times> (error + nat)" where
  "enqueueLoop e t [] q count = (q, Inr count)"
| "enqueueLoop e t ((p, ok) # ls) q count =
     (if p = [] then enqueueLoop e t ls q count
      else case filepath_abs e p of
        None \<Rightarrow> enqueueLoop e t ls q count
      | Some absPath \<Rightarrow>
          (case fileHash e absPath of
             None \<Rightarrow> enqueueLoop e t ls q count
           | Some ch \<Rightarrow>
               if \<not> ok then (q, Inl (InsertFailed absPath))
               else enqueueLoop e t ls (upsert q absPath (pathHash e absPath) ch t)
                      (count + 1)))"

text \<open>
  \<^verbatim>\<open>doEnqueueCmd\<close>: the loop, then the check of \<^verbatim>\<open>scanner.Err()\<close> (\<open>scan_err\<close>), then the
  count is printed. \<open>Inr count\<close> is the printed count.
\<close>

definition doEnqueueCmd ::
  "env \<Rightarrow> string \<Rightarrow> (string \<times> bool) list \<Rightarrow> bool \<Rightarrow> queue \<Rightarrow> queue \<times> (error + nat)" where
  "doEnqueueCmd e t ls scan_err q =
     (case enqueueLoop e t ls q 0 of
        (q', Inl err) \<Rightarrow> (q', Inl err)
      | (q', Inr count) \<Rightarrow> if scan_err then (q', Inl StdinError) else (q', Inr count))"


section \<open>claim\<close>

text \<open>
  \<^verbatim>\<open>LIMIT n\<close>: SQLite puts no upper bound on the number of rows when \<open>n\<close> is negative.
\<close>

definition sql_limit :: "int \<Rightarrow> 'a list \<Rightarrow> 'a list" where
  "sql_limit n xs = (if n < 0 then xs else take (nat n) xs)"

text \<open>
  The query of \<^verbatim>\<open>claimCmd\<close> (main.go, lines 230-238; the same text at lines 661-666 and
  1008-1013):
  \<^verbatim>\<open>SELECT path, path_hash FROM queue WHERE treatment = ? AND done_at IS NULL
  AND path_hash > ? ORDER BY path_hash LIMIT ?\<close>
\<close>

definition claimQuery :: "queue \<Rightarrow> string \<Rightarrow> string \<Rightarrow> int \<Rightarrow> row list" where
  "claimQuery q t cursor n =
     sql_limit n (sort_key path_hash
       (filter (\<lambda>r. treatment r = t \<and> done_at r = None \<and> cursor < path_hash r) q))"

record ClaimResult =
  Path :: string
  PathHash :: string

definition claimResult :: "row \<Rightarrow> ClaimResult" where
  "claimResult r = \<lparr>Path = path r, PathHash = path_hash r\<rparr>"

definition claimCmd :: "queue \<Rightarrow> string \<Rightarrow> string \<Rightarrow> int \<Rightarrow> ClaimResult list" where
  "claimCmd q t cursor n = map claimResult (claimQuery q t cursor n)"

text \<open>
  The worker loop of the README: claim a batch, take the hash of the last item of the
  batch as the next cursor, stop at the first empty batch. The result is everything that
  the calls returned, in the order of the calls.
\<close>

function cursorWalk :: "queue \<Rightarrow> string \<Rightarrow> int \<Rightarrow> string \<Rightarrow> ClaimResult list" where
  "cursorWalk q t n cursor =
     (case claimCmd q t cursor n of
        [] \<Rightarrow> []
      | b # bs \<Rightarrow> (b # bs) @ cursorWalk q t n (PathHash (last (b # bs))))"
  by pat_completeness auto

termination cursorWalk
proof (relation "measure (\<lambda>(q, t, n, c).
         length (filter (\<lambda>r. treatment r = t \<and> done_at r = None \<and> c < path_hash r) q))")
  show "wf (measure (\<lambda>(q, t, n, c).
         length (filter (\<lambda>r. treatment r = t \<and> done_at r = None \<and> c < path_hash r) q)))"
    by simp
next
  fix q :: queue and t :: string and n :: int and cursor :: string
    and b :: ClaimResult and bs :: "ClaimResult list"
  assume batch: "claimCmd q t cursor n = b # bs"
  define F where
    "F c = filter (\<lambda>r. treatment r = t \<and> done_at r = None \<and> c < path_hash r) q" for c
  have "last (b # bs) \<in> set (claimCmd q t cursor n)"
    using batch by (metis last_in_set list.distinct(1))
  then obtain r where r: "r \<in> set (claimQuery q t cursor n)" "last (b # bs) = claimResult r"
    by (auto simp: claimCmd_def)
  have "set (claimQuery q t cursor n) \<subseteq> set (F cursor)"
    by (auto simp: claimQuery_def sql_limit_def F_def dest: in_set_takeD)
  with r have rF: "r \<in> set (F cursor)" by blast
  then have lt: "cursor < path_hash r" by (simp add: F_def)
  have eq: "F (path_hash r) = filter (\<lambda>x. path_hash r < path_hash x) (F cursor)"
    using lt by (auto simp: F_def intro!: filter_cong)
  have "length (F (path_hash r)) < length (F cursor)"
    unfolding eq using rF by (intro length_filter_less[of r]) auto
  moreover have "PathHash (last (b # bs)) = path_hash r"
    using r by (simp add: claimResult_def)
  ultimately show "((q, t, n, PathHash (last (b # bs))), (q, t, n, cursor))
      \<in> measure (\<lambda>(q, t, n, c).
         length (filter (\<lambda>r. treatment r = t \<and> done_at r = None \<and> c < path_hash r) q))"
    by (simp add: F_def)
qed

declare cursorWalk.simps [simp del]

section \<open>done\<close>

subsection \<open>Instants and their text\<close>

text \<open>
  \<^verbatim>\<open>doneCmd\<close> stores two texts that show an instant in the proleptic Gregorian calendar, UTC,
  to the second: \<^verbatim>\<open>time.Now().UTC().Format(time.RFC3339)\<close> (line 304) prints
  \<^verbatim>\<open>2006-01-02T15:04:05Z\<close>, SQLite's \<^verbatim>\<open>DATETIME\<close> prints \<^verbatim>\<open>2006-01-02 15:04:05\<close>. An instant
  is a number of seconds since 1970-01-01 00:00:00 UTC; \<open>civil_from_days\<close> turns a number
  of days since 1970-01-01 into year, month and day. The two texts are those of the
  libraries for the years 0000 to 9999 (four digits for the year).
\<close>

definition civil_from_days :: "int \<Rightarrow> int \<times> int \<times> int" where
  "civil_from_days z =
     (let era = (z + 719468) div 146097;
          doe = (z + 719468) mod 146097;
          yoe = (doe - doe div 1460 + doe div 36524 - doe div 146096) div 365;
          doy = doe - (365 * yoe + yoe div 4 - yoe div 100);
          mp = (5 * doy + 2) div 153;
          d = doy - (153 * mp + 2) div 5 + 1;
          m = (if mp < 10 then mp + 3 else mp - 9)
      in (yoe + era * 400 + (if m \<le> 2 then 1 else 0), m, d))"

definition decDigit :: "int \<Rightarrow> char" where
  "decDigit d = ''0123456789'' ! nat d"

definition dec2 :: "int \<Rightarrow> string" where
  "dec2 v = [decDigit (v div 10 mod 10), decDigit (v mod 10)]"

definition dec4 :: "int \<Rightarrow> string" where
  "dec4 v = dec2 (v div 100 mod 100) @ dec2 (v mod 100)"

definition clockText :: "char \<Rightarrow> string \<Rightarrow> int \<Rightarrow> string" where
  "clockText sep zone s =
     (case civil_from_days (s div 86400) of
        (y, m, d) \<Rightarrow>
          dec4 y @ ''-'' @ dec2 m @ ''-'' @ dec2 d @ [sep]
          @ dec2 (s mod 86400 div 3600) @ '':'' @ dec2 (s mod 3600 div 60) @ '':''
          @ dec2 (s mod 60) @ zone)"

definition rfc3339 :: "int \<Rightarrow> string" where
  "rfc3339 s = clockText (CHR ''T'') ''Z'' s"

definition sqlite_text :: "int \<Rightarrow> string" where
  "sqlite_text s = clockText (CHR '' '') [] s"

subsection \<open>The modifier of DATETIME\<close>

text \<open>
  \<^verbatim>\<open>DATETIME('now', m)\<close> belongs to SQLite, not to this repository; what follows is taken from
  SQLite's documentation of its date and time functions (version 3.46). The
  documentation lists the modifiers: \<^verbatim>\<open>NNN days\<close>, \<^verbatim>\<open>NNN hours\<close>, \<^verbatim>\<open>NNN minutes\<close>,
  \<^verbatim>\<open>NNN seconds\<close>, \<^verbatim>\<open>NNN months\<close>, \<^verbatim>\<open>NNN years\<close> (the final \<^verbatim>\<open>s\<close> is optional, \<^verbatim>\<open>NNN\<close> is a
  number with an optional sign), the time shifts \<^verbatim>\<open>HH:MM\<close>, \<^verbatim>\<open>HH:MM:SS\<close> and
  \<^verbatim>\<open>YYYY-MM-DD ...\<close> with a sign, \<^verbatim>\<open>ceiling\<close>, \<^verbatim>\<open>floor\<close>, \<^verbatim>\<open>start of month\<close>,
  \<^verbatim>\<open>start of year\<close>, \<^verbatim>\<open>start of day\<close>, \<^verbatim>\<open>weekday N\<close>, \<^verbatim>\<open>unixepoch\<close>, \<^verbatim>\<open>julianday\<close>, \<^verbatim>\<open>auto\<close>,
  \<^verbatim>\<open>localtime\<close>, \<^verbatim>\<open>utc\<close>, \<^verbatim>\<open>subsec\<close> and \<^verbatim>\<open>subsecond\<close>. Letters are read without regard to
  case. A modifier that is none of these makes the function yield NULL; it is not an error
  of the statement.

  \<open>sqlite_modifier\<close> sorts a modifier into one of three classes. \<open>Invalid\<close>: the text has
  none of the listed forms. \<open>Shift k\<close>: a whole number (at most 5000000 in absolute value,
  which is below every limit that SQLite puts on \<^verbatim>\<open>NNN\<close>) of days, hours, minutes or
  seconds, that is \<open>k\<close> seconds. \<open>Other\<close>: every other text that begins like a listed form;
  whether SQLite accepts it, and with what value, is not worked out here.
\<close>

definition isSpace :: "char \<Rightarrow> bool" where
  "isSpace c = (c \<in> set [CHR '' '', CHR 0x09, CHR 0x0A, CHR 0x0B, CHR 0x0C, CHR 0x0D])"

definition isDigit :: "char \<Rightarrow> bool" where
  "isDigit c = (c \<in> set ''0123456789'')"

definition toLower :: "char \<Rightarrow> char" where
  "toLower c =
     (case map_of (zip ''ABCDEFGHIJKLMNOPQRSTUVWXYZ'' ''abcdefghijklmnopqrstuvwxyz'') c of
        None \<Rightarrow> c
      | Some l \<Rightarrow> l)"

fun decimalValue :: "nat \<Rightarrow> string \<Rightarrow> nat" where
  "decimalValue a [] = a"
| "decimalValue a (c # cs) = decimalValue (10 * a + (of_char c - 48)) cs"

datatype modifier = Invalid | Shift int | Other

definition keywordModifiers :: "string list" where
  "keywordModifiers =
     [''auto'', ''ceiling'', ''floor'', ''julianday'', ''localtime'', ''unixepoch'', ''utc'',
      ''subsec'', ''subsecond'', ''start of month'', ''start of year'', ''start of day'']"

definition unitSeconds :: "string \<Rightarrow> int option" where
  "unitSeconds =
     map_of [(''second'', 1), (''minute'', 60), (''hour'', 3600), (''day'', 86400)]"

text \<open>A sign, if any, and then digits only: the value; \<open>None\<close> for any other text.\<close>

definition wholeNumber :: "string \<Rightarrow> int option" where
  "wholeNumber num =
     (let ds = (if take 1 num = ''+'' \<or> take 1 num = ''-'' then drop 1 num else num)
      in if ds \<noteq> [] \<and> list_all isDigit ds
         then Some ((if take 1 num = ''-'' then - 1 else 1) * int (decimalValue 0 ds))
         else None)"

definition sqlite_modifier :: "string \<Rightarrow> modifier" where
  "sqlite_modifier m =
     (let z = map toLower m
      in if z = [] then Invalid
         else if hd z \<in> set ''acfjlsuw''
         then (if z \<in> set keywordModifiers \<or> take 8 z = ''weekday '' then Other else Invalid)
         else if hd z \<in> set ''+-0123456789''
         then (if CHR '':'' \<in> set z \<or> (hd z \<in> set ''+-'' \<and> CHR ''-'' \<in> set (tl z)) then Other
               else let num = takeWhile (\<lambda>c. \<not> isSpace c) z;
                        unit = dropWhile isSpace (dropWhile (\<lambda>c. \<not> isSpace c) z);
                        name = (if unit \<noteq> [] \<and> last unit = CHR ''s'' then butlast unit else unit)
                    in if length unit < 3 \<or> 10 < length unit then Invalid
                       else if name \<in> set [''month'', ''year''] then Other
                       else case unitSeconds name of
                              None \<Rightarrow> Invalid
                            | Some u \<Rightarrow>
                                (case wholeNumber num of
                                   None \<Rightarrow> Other
                                 | Some k \<Rightarrow> if \<bar>k\<bar> \<le> 5000000 then Shift (k * u) else Other))
         else Invalid)"

text \<open>
  \<^verbatim>\<open>DATETIME('now', m)\<close>: NULL for a modifier that is not recognised; SQLite's reading of the
  clock moved by the modifier, as text, for a shift that stays within the years 0000 to
  9999 (the instants from -62167219200 to 253402300799).
\<close>

definition sqlite_datetime :: "env \<Rightarrow> string \<Rightarrow> string option" where
  "sqlite_datetime e m =
     (case sqlite_modifier m of
        Invalid \<Rightarrow> None
      | Shift k \<Rightarrow>
          if - 62167219200 \<le> sqlite_now e + k \<and> sqlite_now e + k \<le> 253402300799
          then Some (sqlite_text (sqlite_now e + k))
          else sqlite_datetime_other e m
      | Other \<Rightarrow> sqlite_datetime_other e m)"

subsection \<open>The command\<close>

text \<open>
  The two \<^verbatim>\<open>UPDATE\<close> statements of \<^verbatim>\<open>doneCmd\<close> (main.go, lines 306-318) differ in the value
  of \<^verbatim>\<open>next_at\<close> only, which is the last argument here.
\<close>

definition markDone ::
  "queue \<Rightarrow> string \<Rightarrow> string \<Rightarrow> string \<Rightarrow> string \<Rightarrow> string option \<Rightarrow> queue" where
  "markDone q ph t now res nxt =
     map (\<lambda>r. if path_hash r = ph \<and> treatment r = t
               then r\<lparr>done_at := Some now, result := Some res, next_at := nxt\<rparr>
               else r) q"

text \<open>
  \<^verbatim>\<open>doneCmd\<close> (main.go, lines 277-323). \<open>now\<close> is the clock of the process as RFC 3339 text
  (line 304). With an empty \<^verbatim>\<open>--revisit\<close> the statement stores NULL in \<^verbatim>\<open>next_at\<close>, otherwise
  what \<^verbatim>\<open>DATETIME('now', revisit)\<close> evaluates to when SQLite runs the statement. \<open>exec_ok\<close>
  says that \<^verbatim>\<open>db.Exec\<close> returned no error: the statement is fixed text with bound
  parameters and \<^verbatim>\<open>DATETIME\<close> raises no error, so an error comes from the store alone (the
  file cannot be written, the table is locked) and not from the value of a parameter.
\<close>

definition doneCmd ::
  "env \<Rightarrow> string \<Rightarrow> string \<Rightarrow> string \<Rightarrow> string \<Rightarrow> bool \<Rightarrow> queue \<Rightarrow> error + queue" where
  "doneCmd e p res revisit t exec_ok q =
     (if p = [] then Inl PathRequired
      else case filepath_abs e p of
        None \<Rightarrow> Inl PathError
      | Some absPath \<Rightarrow>
          if \<not> exec_ok then Inl UpdateError
          else Inr (markDone q (pathHash e absPath) t (rfc3339 (time_now e)) res
                      (if revisit = [] then None else sqlite_datetime e revisit)))"

text \<open>
  The earlier \<^verbatim>\<open>doneCmd\<close> (main.go, lines 1033-1075; lines 692-740 send the same statement):
  one statement, \<^verbatim>\<open>UPDATE queue SET done_at=?, result=?, next_at=DATETIME('now', ?)
  WHERE path=? AND treatment=?\<close>, whose modifier is NULL when \<^verbatim>\<open>--revisit\<close> is empty;
  \<^verbatim>\<open>DATETIME\<close> of a NULL modifier is NULL. The row is found by its path. An error of the
  update is printed and the command returns all the same.
\<close>

definition doneCmd_v1 ::
  "env \<Rightarrow> string \<Rightarrow> string \<Rightarrow> string \<Rightarrow> string \<Rightarrow> bool \<Rightarrow> queue \<Rightarrow> error + queue" where
  "doneCmd_v1 e p res revisit t exec_ok q =
     (if p = [] then Inl PathRequired
      else case filepath_abs e p of
        None \<Rightarrow> Inl PathError
      | Some absPath \<Rightarrow>
          if \<not> exec_ok then Inr q
          else Inr (map (\<lambda>r. if path r = absPath \<and> treatment r = t
                              then r\<lparr>done_at := Some (rfc3339 (time_now e)), result := Some res,
                                     next_at := (case (if revisit = [] then None else Some revisit) of
                                                   None \<Rightarrow> None
                                                 | Some m \<Rightarrow> sqlite_datetime e m)\<rparr>
                              else r) q))"

section \<open>status\<close>

record StatusResult =
  Treatment :: string
  Pending :: int
  Done :: int

text \<open>\<^verbatim>\<open>SUM\<close> over no rows is NULL.\<close>

definition sql_sum :: "int list \<Rightarrow> int option" where
  "sql_sum xs = (if xs = [] then None else Some (sum_list xs))"

text \<open>
  The common table expression \<^verbatim>\<open>stats\<close> of \<^verbatim>\<open>statusCmd\<close> (main.go, lines 349-361): the
  rows of the table, restricted to the treatment when the filter is not empty, grouped by
  treatment, with the numbers of rows whose \<^verbatim>\<open>done_at\<close> is NULL and is not NULL. SQLite
  forms the groups by sorting, so that they come out in the order of the treatment.
\<close>

definition stats :: "queue \<Rightarrow> string \<Rightarrow> (string \<times> int \<times> int) list" where
  "stats q f =
     (let src = (if f = [] then q else filter (\<lambda>r. treatment r = f) q)
      in map (\<lambda>t. (t,
                int (length (filter (\<lambda>r. treatment r = t \<and> done_at r = None) src)),
                int (length (filter (\<lambda>r. treatment r = t \<and> done_at r \<noteq> None) src))))
           (sort (remdups (map treatment src))))"

text \<open>
  The two \<^verbatim>\<open>SELECT\<close>s of the statement, joined by \<^verbatim>\<open>UNION ALL\<close> (lines 362-364): the rows of
  \<^verbatim>\<open>stats\<close>, then one row \<^verbatim>\<open>'TOTAL'\<close> with the sums of the two columns.
\<close>

definition statusRows :: "queue \<Rightarrow> string \<Rightarrow> (string \<times> int option \<times> int option) list" where
  "statusRows q f =
     (let st = stats q f
      in map (\<lambda>(t, p, d). (t, Some p, Some d)) st @
         [(''TOTAL'', sql_sum (map (\<lambda>(t, p, d). p) st), sql_sum (map (\<lambda>(t, p, d). d) st))])"

text \<open>
  The statement ends with \<^verbatim>\<open>ORDER BY (treatment = 'TOTAL'), treatment\<close> (line 365). In a
  compound \<^verbatim>\<open>SELECT\<close> SQLite accepts an \<^verbatim>\<open>ORDER BY\<close> term only when it is a result column (its
  name, its alias or exactly its expression); any other term is rejected when the statement
  is prepared (\<^verbatim>\<open>1st ORDER BY term does not match any column in the result set\<close>). The result
  columns are those of the first \<^verbatim>\<open>SELECT\<close>.
\<close>

definition statusColumns :: "string list" where
  "statusColumns = [''treatment'', ''pending'', ''done'']"

definition statusOrderBy :: "string list" where
  "statusOrderBy = [''(treatment = 'TOTAL')'', ''treatment'']"

definition compound_order_by_ok :: "string list \<Rightarrow> string list \<Rightarrow> bool" where
  "compound_order_by_ok columns terms = list_all (\<lambda>t. t \<in> set columns) terms"

text \<open>
  \<^verbatim>\<open>db.Query\<close> (line 367): the error of a rejected statement, else the rows in the order asked
  for.
\<close>

definition statusQuery ::
  "queue \<Rightarrow> string \<Rightarrow> error + (string \<times> int option \<times> int option) list" where
  "statusQuery q f =
     (if compound_order_by_ok statusColumns statusOrderBy
      then Inr (sort_key (\<lambda>(t, p, d). (t = ''TOTAL'', t)) (statusRows q f))
      else Inl QueryError)"

text \<open>
  The loop over the rows (lines 375-382): \<^verbatim>\<open>rows.Scan\<close> into two \<^verbatim>\<open>int\<close> variables fails on
  NULL, and the loop goes on to the next row.
\<close>

fun scanRows :: "(string \<times> int option \<times> int option) list \<Rightarrow> StatusResult list" where
  "scanRows [] = []"
| "scanRows ((t, Some p, Some d) # rs) =
     \<lparr>Treatment = t, Pending = p, Done = d\<rparr> # scanRows rs"
| "scanRows ((t, p, d) # rs) = scanRows rs"

text \<open>
  \<^verbatim>\<open>statusCmd\<close> (lines 335-398): an error of the query ends the command with status 1 before
  anything is printed; else the rows scanned are printed.
\<close>

definition statusCmd :: "queue \<Rightarrow> string \<Rightarrow> error + StatusResult list" where
  "statusCmd q f =
     (case statusQuery q f of
        Inl err \<Rightarrow> Inl err
      | Inr rows \<Rightarrow> Inr (scanRows rows))"

text \<open>
  The earlier \<^verbatim>\<open>statusCmd\<close> (lines 1077-1123; lines 742-799 hold the same query):
  \<^verbatim>\<open>SELECT treatment, COUNT(*) FILTER (WHERE done_at IS NULL),
  COUNT(*) FILTER (WHERE done_at IS NOT NULL) FROM queue [WHERE treatment=?] GROUP BY treatment\<close>,
  one printed line for each row.
\<close>

definition statusCmd_v1 :: "queue \<Rightarrow> string \<Rightarrow> StatusResult list" where
  "statusCmd_v1 q f = map (\<lambda>(t, p, d). \<lparr>Treatment = t, Pending = p, Done = d\<rparr>) (stats q f)"

section \<open>reset\<close>

datatype reset_output = Canceled | Deleted nat

text \<open>
  \<^verbatim>\<open>resetCmd\<close> (main.go, lines 404-439): \<open>yes\<close> is the flag \<^verbatim>\<open>--yes\<close>, \<open>response\<close> what
  \<^verbatim>\<open>fmt.Scanln\<close> reads when the flag is absent, \<open>exec_ok\<close> says that the \<^verbatim>\<open>DELETE\<close> returned
  no error. \<open>Deleted n\<close> is the printed \<^verbatim>\<open>RowsAffected\<close>.
\<close>

definition resetCmd ::
  "string \<Rightarrow> bool \<Rightarrow> string \<Rightarrow> bool \<Rightarrow> queue \<Rightarrow> queue \<times> (error + reset_output)" where
  "resetCmd t yes response exec_ok q =
     (if t = [] then (q, Inl TreatmentRequired)
      else if \<not> yes \<and> response \<noteq> ''y'' \<and> response \<noteq> ''Y'' then (q, Inr Canceled)
      else if \<not> exec_ok then (q, Inl DeleteError)
      else (filter (\<lambda>r. treatment r \<noteq> t) q,
            Inr (Deleted (length (filter (\<lambda>r. treatment r = t) q)))))"

section \<open>The earlier revision of enqueue\<close>

text \<open>
  main.go also keeps the earlier \<^verbatim>\<open>enqueueCmd\<close> (lines 951-991; lines 580-638 hold the same
  loop). Its statement is \<^verbatim>\<open>INSERT OR IGNORE INTO queue ... VALUES (?, ?, ?, ?, NULL, NULL, NULL)\<close>
  on the table of \<^verbatim>\<open>.quality/schema.sql\<close>, whose key is \<^verbatim>\<open>PRIMARY KEY (path, treatment)\<close>: a
  row whose key is taken is dropped without an error.
\<close>

definition insertOrIgnore :: "queue \<Rightarrow> string \<Rightarrow> string \<Rightarrow> string \<Rightarrow> string \<Rightarrow> queue" where
  "insertOrIgnore q absPath ph ch t =
     (if \<exists>r \<in> set q. path r = absPath \<and> treatment r = t then q
      else q @ [\<lparr>path = absPath, path_hash = ph, content_hash = ch, treatment = t,
                 done_at = None, result = None, next_at = None\<rparr>])"

text \<open>
  The loop of that revision: a failed write is passed over, and only a write without an
  error increments \<open>count\<close>. The count is printed in every case.
\<close>

fun enqueueLoop_v1 ::
  "env \<Rightarrow> string \<Rightarrow> (string \<times> bool) list \<Rightarrow> queue \<Rightarrow> nat \<Rightarrow> queue \<times> nat" where
  "enqueueLoop_v1 e t [] q count = (q, count)"
| "enqueueLoop_v1 e t ((p, ok) # ls) q count =
     (if p = [] then enqueueLoop_v1 e t ls q count
      else case filepath_abs e p of
        None \<Rightarrow> enqueueLoop_v1 e t ls q count
      | Some absPath \<Rightarrow>
          (case fileHash e absPath of
             None \<Rightarrow> enqueueLoop_v1 e t ls q count
           | Some ch \<Rightarrow>
               if ok then enqueueLoop_v1 e t ls
                            (insertOrIgnore q absPath (pathHash e absPath) ch t) (count + 1)
               else enqueueLoop_v1 e t ls q count))"

definition enqueueCmd_v1 :: "env \<Rightarrow> string \<Rightarrow> (string \<times> bool) list \<Rightarrow> queue \<Rightarrow> queue \<times> nat" where
  "enqueueCmd_v1 e t ls q = enqueueLoop_v1 e t ls q 0"

section \<open>Shard partitioner and sharded claim\<close>

text \<open>
  Modelled from the spec: \<^verbatim>\<open>calculateShardRange\<close> is called by the tests but is not among the
  sources. Section 4.4 of the specification gives the numbers: on the leading 64 bits of
  the hash, shard \<open>i\<close> of \<open>T\<close> starts at \<open>floor(i * 2^64 / T)\<close> and ends at
  \<open>floor((i+1) * 2^64 / T)\<close>, except that the last shard ends at \<open>2^64 - 1\<close>.
\<close>

definition shardBounds :: "nat \<Rightarrow> nat \<Rightarrow> nat \<times> nat" where
  "shardBounds i T =
     (i * 2 ^ 64 div T, if i + 1 = T then 2 ^ 64 - 1 else (i + 1) * 2 ^ 64 div T)"

text \<open>
  Modelled from the spec: a bound is rendered as sixteen lower-case hexadecimal digits
  followed by zeros up to the width of the hash (64 digits); the tests expect
  \<^verbatim>\<open>ffffffffffffffff\<close> followed by 48 zeros as the end of the last shard.
\<close>

definition hexDigit :: "nat \<Rightarrow> char" where
  "hexDigit d = ''0123456789abcdef'' ! d"

fun hexFixed :: "nat \<Rightarrow> nat \<Rightarrow> string" where
  "hexFixed 0 v = []"
| "hexFixed (Suc w) v = hexFixed w (v div 16) @ [hexDigit (v mod 16)]"

definition renderBound :: "nat \<Rightarrow> string" where
  "renderBound v = hexFixed 16 v @ replicate 48 (CHR ''0'')"

text \<open>
  Modelled from the spec: \<^verbatim>\<open>calculateShardRange(shard, totalShards)\<close> returns the two rendered
  bounds of the shard.
\<close>

definition calculateShardRange :: "nat \<Rightarrow> nat \<Rightarrow> string \<times> string" where
  "calculateShardRange shard totalShards =
     (renderBound (fst (shardBounds shard totalShards)),
      renderBound (snd (shardBounds shard totalShards)))"

text \<open>
  Modelled from the spec: the leading 64 bits of a hash, read from its first sixteen
  hexadecimal digits.
\<close>

definition digitVal :: "char \<Rightarrow> nat" where
  "digitVal c =
     (if CHR ''0'' \<le> c \<and> c \<le> CHR ''9'' then of_char c - 48
      else if CHR ''a'' \<le> c \<and> c \<le> CHR ''f'' then of_char c - 87
      else 0)"

fun hexAcc :: "nat \<Rightarrow> string \<Rightarrow> nat" where
  "hexAcc a [] = a"
| "hexAcc a (c # cs) = hexAcc (16 * a + digitVal c) cs"

definition leading64 :: "string \<Rightarrow> nat" where
  "leading64 h = hexAcc 0 (take 16 h)"

text \<open>
  \<^verbatim>\<open>pathHash\<close> (main.go, lines 85-88) is \<^verbatim>\<open>hex.EncodeToString\<close> of a SHA-256 digest: 64
  lower-case hexadecimal digits.
\<close>

definition isHex :: "char \<Rightarrow> bool" where
  "isHex c = ((CHR ''0'' \<le> c \<and> c \<le> CHR ''9'') \<or> (CHR ''a'' \<le> c \<and> c \<le> CHR ''f''))"

definition wellFormedHash :: "string \<Rightarrow> bool" where
  "wellFormedHash h = (length h = 64 \<and> list_all isHex h)"

text \<open>
  Modelled from the spec: a hash belongs to shard \<open>i\<close> of \<open>T\<close> when its leading 64 bits lie
  in the half-open range of the shard; the end of the last shard is inclusive.
\<close>

definition inShard :: "string \<Rightarrow> nat \<Rightarrow> nat \<Rightarrow> bool" where
  "inShard h i T =
     (fst (shardBounds i T) \<le> leading64 h
      \<and> (if i + 1 = T then leading64 h \<le> snd (shardBounds i T)
         else leading64 h < snd (shardBounds i T)))"

text \<open>
  Modelled from the spec: the claim with \<^verbatim>\<open>--shard\<close> and \<^verbatim>\<open>--total-shards\<close>, which the sources
  do not have. Section 4.5: the query of \<^verbatim>\<open>claimCmd\<close> with the further condition that the hash
  lies in \<open>[shardStart, shardEnd)\<close>, compared as text; section 6: the pair must satisfy
  \<open>0 \<le> shard < total-shards\<close>, else the command fails with a validation error.
\<close>

definition claimSharded ::
  "queue \<Rightarrow> string \<Rightarrow> string \<Rightarrow> (int \<times> int) option \<Rightarrow> int \<Rightarrow> error + row list" where
  "claimSharded q t cursor shard n =
     (case shard of
        None \<Rightarrow> Inr (claimQuery q t cursor n)
      | Some (i, T) \<Rightarrow>
          if \<not> (0 \<le> i \<and> i < T) then Inl InvalidShard
          else Inr (sql_limit n (sort_key path_hash
                 (filter (\<lambda>r. treatment r = t \<and> done_at r = None \<and> cursor < path_hash r
                             \<and> fst (calculateShardRange (nat i) (nat T)) \<le> path_hash r
                             \<and> path_hash r < snd (calculateShardRange (nat i) (nat T))) q))))"

section \<open>Example data\<close>

text \<open>
  A small ledger for the concrete runs below. \<open>ex_hash\<close> stands in for SHA-256 on the
  three paths of the example. The process reads its clock at 2025-11-08 12:00:00 UTC, and
  SQLite runs the statement one second later.
\<close>

definition ex_hash :: "string \<Rightarrow> string" where
  "ex_hash p = (if p = ''/w/a.go'' then ''3a'' else if p = ''/w/b.go'' then ''7c'' else ''e0'')"

definition ex_env :: env where
  "ex_env = \<lparr>pathHash = ex_hash,
             fileHash = (\<lambda>p. if p = ''/w/a.go'' then Some ''c1''
                              else if p = ''/w/b.go'' then Some ''c2'' else None),
             filepath_abs = (\<lambda>p. Some (if take 1 p = ''/'' then p else ''/w/'' @ p)),
             time_now = 1762603200,
             sqlite_now = 1762603201,
             sqlite_datetime_other = (\<lambda>m. None)\<rparr>"

definition ex_a :: row where
  "ex_a = \<lparr>path = ''/w/a.go'', path_hash = ''3a'', content_hash = ''c1'', treatment = ''lint'',
           done_at = None, result = None, next_at = None\<rparr>"

definition ex_b :: row where
  "ex_b = \<lparr>path = ''/w/b.go'', path_hash = ''7c'', content_hash = ''c2'', treatment = ''lint'',
           done_at = Some ''2025-11-01T08:00:00Z'', result = Some ''r1'', next_at = None\<rparr>"

definition ex_c :: row where
  "ex_c = \<lparr>path = ''/w/c.go'', path_hash = ''e0'', content_hash = ''c3'', treatment = ''other'',
           done_at = None, result = None, next_at = None\<rparr>"

definition ex_blank :: row where
  "ex_blank = \<lparr>path = ''/w/d.go'', path_hash = ''9d'', content_hash = ''c4'', treatment = [],
               done_at = None, result = None, next_at = None\<rparr>"

section \<open>Properties of enqueue\<close>















lemma doEnqueueCmd_single:
  assumes "p \<noteq> []" "filepath_abs e p = Some a" "fileHash e a = Some ch"
  shows "doEnqueueCmd e t [(p, True)] False q = (upsert q a (pathHash e a) ch t, Inr 1)"
  using assms by (simp add: doEnqueueCmd_def)

lemma upsert_nth:
  assumes "i < length q" "path_hash (q ! i) = ph" "treatment (q ! i) = t"
  shows "length (upsert q a ph ch t) = length q"
    and "upsert q a ph ch t ! i =
           (q ! i)\<lparr>path := a, content_hash := ch,
                   done_at := (if content_hash (q ! i) = ch then done_at (q ! i) else None),
                   result := (if content_hash (q ! i) = ch then result (q ! i) else None),
                   next_at := (if content_hash (q ! i) = ch then next_at (q ! i) else None)\<rparr>"
    and "\<And>j. j < length q \<Longrightarrow> \<not> (path_hash (q ! j) = ph \<and> treatment (q ! j) = t)
           \<Longrightarrow> upsert q a ph ch t ! j = q ! j"
proof -
  have ex: "\<exists>r \<in> set q. path_hash r = ph \<and> treatment r = t"
    using assms nth_mem by blast
  show "length (upsert q a ph ch t) = length q"
    using ex by (simp add: upsert_def)
  show "upsert q a ph ch t ! i =
           (q ! i)\<lparr>path := a, content_hash := ch,
                   done_at := (if content_hash (q ! i) = ch then done_at (q ! i) else None),
                   result := (if content_hash (q ! i) = ch then result (q ! i) else None),
                   next_at := (if content_hash (q ! i) = ch then next_at (q ! i) else None)\<rparr>"
    using ex assms by (simp add: upsert_def)
  show "\<And>j. j < length q \<Longrightarrow> \<not> (path_hash (q ! j) = ph \<and> treatment (q ! j) = t)
           \<Longrightarrow> upsert q a ph ch t ! j = q ! j"
    using ex by (auto simp: upsert_def)
qed

lemma sql_limit_all:
  assumes "n < 0 \<or> int (length xs) \<le> n"
  shows "sql_limit n xs = xs"
  using assms by (auto simp: sql_limit_def)

lemma claimQuery_complete:
  assumes "r \<in> set q" "treatment r = t" "done_at r = None" "cursor < path_hash r"
    and "n < 0 \<or> int (length q) \<le> n"
  shows "r \<in> set (claimQuery q t cursor n)"
proof -
  let ?F = "filter (\<lambda>r. treatment r = t \<and> done_at r = None \<and> cursor < path_hash r) q"
  have "length ?F \<le> length q"
    by (rule length_filter_le)
  then have "n < 0 \<or> int (length (sort_key path_hash ?F)) \<le> n"
    using assms(5) by (simp only: length_sort) linarith
  then have "sql_limit n (sort_key path_hash ?F) = sort_key path_hash ?F"
    by (rule sql_limit_all)
  then show ?thesis
    using assms(1-4) by (simp add: claimQuery_def)
qed

text \<open>
  C4. An enqueue of a location whose row exists with another content hash stores the new
  content hash and sets \<^verbatim>\<open>done_at\<close>, \<^verbatim>\<open>result\<close> and \<^verbatim>\<open>next_at\<close> of that row to NULL; the row is
  pending again, and every claim for the treatment whose cursor is below the row's hash and
  whose batch is large enough for the table (or unlimited) returns it.
\<close>

theorem enqueue_reactivates:
  assumes "p \<noteq> []" and "filepath_abs e p = Some a" and "fileHash e a = Some ch"
    and "i < length q" and "path_hash (q ! i) = pathHash e a" and "treatment (q ! i) = t"
    and "content_hash (q ! i) \<noteq> ch"
  shows "\<exists>q'. doEnqueueCmd e t [(p, True)] False q = (q', Inr 1)
          \<and> length q' = length q
          \<and> q' ! i = (q ! i)\<lparr>path := a, content_hash := ch,
                             done_at := None, result := None, next_at := None\<rparr>
          \<and> (\<forall>cursor n. cursor < pathHash e a \<and> (n < 0 \<or> int (length q) \<le> n)
                \<longrightarrow> claimResult (q' ! i) \<in> set (claimCmd q' t cursor n))"
proof -
  define q' where "q' = upsert q a (pathHash e a) ch t"
  have run: "doEnqueueCmd e t [(p, True)] False q = (q', Inr 1)"
    unfolding q'_def using assms(1-3) by (rule doEnqueueCmd_single)
  have len: "length q' = length q"
    unfolding q'_def using assms(4-6) by (rule upsert_nth(1))
  have row: "q' ! i = (q ! i)\<lparr>path := a, content_hash := ch,
                             done_at := None, result := None, next_at := None\<rparr>"
    unfolding q'_def using upsert_nth(2) [OF assms(4-6), of a ch] assms(7) by simp
  have mem: "q' ! i \<in> set q'"
    using len assms(4) by simp
  have claim: "claimResult (q' ! i) \<in> set (claimCmd q' t cursor n)"
    if "cursor < pathHash e a" "n < 0 \<or> int (length q) \<le> n" for cursor n
  proof -
    have "q' ! i \<in> set (claimQuery q' t cursor n)"
      using mem that assms(5,6) by (intro claimQuery_complete) (simp_all add: row len)
    then show ?thesis
      by (simp add: claimCmd_def)
  qed
  show ?thesis
    using run len row claim by blast
qed

theorem enqueue_reactivates_witness:
  "doEnqueueCmd ex_env ''lint'' [(''b.go'', True)] False [ex_a, ex_b\<lparr>content_hash := ''c0''\<rparr>]
     = ([ex_a, ex_b\<lparr>done_at := None, result := None\<rparr>], Inr 1)
   \<and> claimCmd [ex_a, ex_b\<lparr>done_at := None, result := None\<rparr>] ''lint'' [] 2
     = [\<lparr>Path = ''/w/a.go'', PathHash = ''3a''\<rparr>, \<lparr>Path = ''/w/b.go'', PathHash = ''7c''\<rparr>]"
  using enqueue_reactivates [of "''b.go''" ex_env "''/w/b.go''" "''c2''" 1
      "[ex_a, ex_b\<lparr>content_hash := ''c0''\<rparr>]" "''lint''"]
  by (simp add: doEnqueueCmd_def upsert_def claimCmd_def claimQuery_def sql_limit_def
        claimResult_def ex_env_def ex_hash_def ex_a_def ex_b_def)

text \<open>
  C5. An enqueue of a location whose row exists with the same content hash leaves
  \<^verbatim>\<open>done_at\<close>, \<^verbatim>\<open>result\<close> and \<^verbatim>\<open>next_at\<close> of that row as they were, and every other row as it
  was; under the primary key, and when the stored path is the path enqueued, the table
  is unchanged.
\<close>

theorem enqueue_unchanged_idempotent:
  assumes "p \<noteq> []" and "filepath_abs e p = Some a" and "fileHash e a = Some ch"
    and "i < length q" and "path_hash (q ! i) = pathHash e a" and "treatment (q ! i) = t"
    and "content_hash (q ! i) = ch"
  shows "\<exists>q'. doEnqueueCmd e t [(p, True)] False q = (q', Inr 1)
          \<and> length q' = length q
          \<and> q' ! i = (q ! i)\<lparr>path := a\<rparr>
          \<and> done_at (q' ! i) = done_at (q ! i)
          \<and> result (q' ! i) = result (q ! i)
          \<and> next_at (q' ! i) = next_at (q ! i)
          \<and> (\<forall>j < length q. \<not> (path_hash (q ! j) = pathHash e a \<and> treatment (q ! j) = t)
                \<longrightarrow> q' ! j = q ! j)
          \<and> (primary_key q \<and> path (q ! i) = a \<longrightarrow> q' = q)"
proof -
  define q' where "q' = upsert q a (pathHash e a) ch t"
  have run: "doEnqueueCmd e t [(p, True)] False q = (q', Inr 1)"
    unfolding q'_def using assms(1-3) by (rule doEnqueueCmd_single)
  have len: "length q' = length q"
    unfolding q'_def using assms(4-6) by (rule upsert_nth(1))
  have row: "q' ! i = (q ! i)\<lparr>path := a\<rparr>"
    unfolding q'_def using upsert_nth(2) [OF assms(4-6), of a ch] assms(7) by simp
  have others: "q' ! j = q ! j"
    if "j < length q" "\<not> (path_hash (q ! j) = pathHash e a \<and> treatment (q ! j) = t)" for j
    unfolding q'_def using upsert_nth(3) [OF assms(4-6) that] .
  have same: "q' = q" if pk: "primary_key q" and pa: "path (q ! i) = a"
  proof (rule nth_equalityI)
    show "length q' = length q" by (rule len)
  next
    fix j assume "j < length q'"
    then have j: "j < length q" by (simp add: len)
    show "q' ! j = q ! j"
    proof (cases "path_hash (q ! j) = pathHash e a \<and> treatment (q ! j) = t")
      case True
      have "map (\<lambda>r. (path_hash r, treatment r)) q ! j = map (\<lambda>r. (path_hash r, treatment r)) q ! i"
        using True assms(4-6) j by simp
      then have "j = i"
        using pk j assms(4) unfolding primary_key_def
        by (metis length_map nth_eq_iff_index_eq)
      then show ?thesis
        using row pa by simp
    next
      case False
      then show ?thesis using others j by blast
    qed
  qed
  show ?thesis
    using run len row others same by auto
qed

theorem enqueue_unchanged_idempotent_witness:
  "doEnqueueCmd ex_env ''lint'' [(''b.go'', True)] False [ex_a, ex_b, ex_c]
     = ([ex_a, ex_b, ex_c], Inr 1)"
  using enqueue_unchanged_idempotent [of "''b.go''" ex_env "''/w/b.go''" "''c2''" 1
      "[ex_a, ex_b, ex_c]" "''lint''"]
  by (simp add: doEnqueueCmd_def upsert_def ex_env_def ex_hash_def ex_a_def ex_b_def ex_c_def)





text \<open>
  The earlier revision does not re-activate: the row of a location that is enqueued again
  is left as it is, whatever the content hash, and the line is counted.
\<close>

lemma enqueueCmd_v1_keeps_row:
  assumes "p \<noteq> []" and "filepath_abs e p = Some a" and "fileHash e a = Some ch"
    and "\<exists>r \<in> set q. path r = a \<and> treatment r = t"
  shows "enqueueCmd_v1 e t [(p, True)] q = (q, 1)"
  using assms by (simp add: enqueueCmd_v1_def insertOrIgnore_def)

section \<open>Properties of done\<close>

subsection \<open>The modifiers that are durations, and some that are not recognised\<close>

lemma isDigit_elim:
  assumes "isDigit c"
  obtains "c = CHR ''0''" | "c = CHR ''1''" | "c = CHR ''2''" | "c = CHR ''3''" | "c = CHR ''4''"
    | "c = CHR ''5''" | "c = CHR ''6''" | "c = CHR ''7''" | "c = CHR ''8''" | "c = CHR ''9''"
  using assms unfolding isDigit_def list.set insert_iff empty_iff by blast

lemma isDigit_lower: "isDigit c \<Longrightarrow> toLower c = c"
  by (erule isDigit_elim) (simp_all add: toLower_def)

lemma isDigit_no_space: "isDigit c \<Longrightarrow> \<not> isSpace c"
  by (erule isDigit_elim) (simp_all add: isSpace_def)

lemma isDigit_other:
  assumes "isDigit c"
  shows "c \<noteq> CHR '':''" "c \<noteq> CHR ''-''" "c \<noteq> CHR ''+''"
    "c \<in> set ''+-0123456789''" "c \<notin> set ''acfjlsuw''"
  using assms by (auto elim!: isDigit_elim)

lemma digits_lower:
  assumes "list_all isDigit ds"
  shows "map toLower ds = ds"
  using assms by (induction ds) (simp_all add: isDigit_lower)

lemma digits_no_space:
  assumes "list_all isDigit ds" and "c \<in> set ds"
  shows "\<not> isSpace c" "c \<noteq> CHR '':''" "c \<noteq> CHR ''-''"
  using assms by (auto simp: list_all_iff isDigit_no_space isDigit_other)

lemma unit_elim:
  assumes "unitSeconds name = Some f" and "u = name \<or> u = name @ ''s''"
  obtains "u = ''second''" "f = 1" | "u = ''seconds''" "f = 1"
    | "u = ''minute''" "f = 60" | "u = ''minutes''" "f = 60"
    | "u = ''hour''" "f = 3600" | "u = ''hours''" "f = 3600"
    | "u = ''day''" "f = 86400" | "u = ''days''" "f = 86400"
proof -
  have "(name = ''second'' \<and> f = 1) \<or> (name = ''minute'' \<and> f = 60)
      \<or> (name = ''hour'' \<and> f = 3600) \<or> (name = ''day'' \<and> f = 86400)"
    using assms(1) by (simp add: unitSeconds_def split: if_splits)
  then show ?thesis
    using assms(2) that by (elim disjE conjE) simp_all
qed

lemma unit_lower:
  assumes "unitSeconds name = Some f" and "u = name \<or> u = name @ ''s''"
  shows "map toLower u = u"
  using assms by (rule unit_elim) (simp_all add: toLower_def)

lemma unit_no_space:
  assumes "unitSeconds name = Some f" and "u = name \<or> u = name @ ''s''"
  shows "dropWhile isSpace u = u"
  using assms by (rule unit_elim) (simp_all add: isSpace_def)

lemma unit_chars:
  assumes "unitSeconds name = Some f" and "u = name \<or> u = name @ ''s''"
  shows "CHR '':'' \<notin> set u \<and> CHR ''-'' \<notin> set u"
  using assms by (rule unit_elim) simp_all

lemma unit_length:
  assumes "unitSeconds name = Some f" and "u = name \<or> u = name @ ''s''"
  shows "\<not> (length u < 3 \<or> 10 < length u)"
  using assms by (rule unit_elim) simp_all

lemma unit_name:
  assumes "unitSeconds name = Some f" and "u = name \<or> u = name @ ''s''"
  shows "(if u \<noteq> [] \<and> last u = CHR ''s'' then butlast u else u) \<notin> set [''month'', ''year'']
       \<and> unitSeconds (if u \<noteq> [] \<and> last u = CHR ''s'' then butlast u else u) = Some f"
  using assms by (rule unit_elim) (simp_all add: unitSeconds_def)

lemma wholeNumber_signed:
  assumes "sg = [] \<or> sg = ''+'' \<or> sg = ''-''" and "ds \<noteq> []" and "list_all isDigit ds"
  shows "wholeNumber (sg @ ds)
           = Some ((if sg = ''-'' then - 1 else 1) * int (decimalValue 0 ds))"
proof -
  obtain d ds' where ds: "ds = d # ds'"
    using assms(2) by (cases ds) auto
  have d: "isDigit d"
    using assms(3) ds by simp
  have nd: "d \<noteq> CHR ''+''" "d \<noteq> CHR ''-''"
    using isDigit_other [OF d] by simp_all
  show ?thesis
    using assms(1)
  proof (elim disjE)
    assume "sg = []"
    then show ?thesis
      using nd assms(3) unfolding ds by (simp add: wholeNumber_def Let_def)
  next
    assume "sg = ''+''"
    then show ?thesis
      using assms(3) unfolding ds by (simp add: wholeNumber_def Let_def)
  next
    assume "sg = ''-''"
    then show ?thesis
      using assms(3) unfolding ds by (simp add: wholeNumber_def Let_def)
  qed
qed

text \<open>
  The text before the unit and the text from the unit on, for a modifier that is a sign
  (or none), digits, one blank and a word that does not begin with a blank.
\<close>

lemma number_and_word:
  assumes sg: "sg = [] \<or> sg = ''+'' \<or> sg = ''-''" and dig: "list_all isDigit ds"
    and w: "dropWhile isSpace w = w"
  shows "takeWhile (\<lambda>c. \<not> isSpace c) (sg @ ds @ '' '' @ w) = sg @ ds"
    and "dropWhile isSpace (dropWhile (\<lambda>c. \<not> isSpace c) (sg @ ds @ '' '' @ w)) = w"
proof -
  have sg_no_space: "\<not> isSpace c" if "c \<in> set sg" for c
    using sg that by (elim disjE) (simp_all add: isSpace_def)
  have no_space: "\<not> isSpace c" if "c \<in> set (sg @ ds)" for c
    using that sg_no_space digits_no_space(1) [OF dig] by auto
  have split: "sg @ ds @ '' '' @ w = (sg @ ds) @ CHR '' '' # w"
    by simp
  have sp: "isSpace (CHR '' '')"
    by (simp add: isSpace_def)
  show "takeWhile (\<lambda>c. \<not> isSpace c) (sg @ ds @ '' '' @ w) = sg @ ds"
    unfolding split using no_space sp by (simp add: takeWhile_append2)
  have "dropWhile (\<lambda>c. \<not> isSpace c) (sg @ ds @ '' '' @ w) = CHR '' '' # w"
    unfolding split using no_space sp by (simp add: dropWhile_append2)
  then show "dropWhile isSpace (dropWhile (\<lambda>c. \<not> isSpace c) (sg @ ds @ '' '' @ w)) = w"
    using sp w by simp
qed

lemma number_and_word_head:
  assumes sg: "sg = [] \<or> sg = ''+'' \<or> sg = ''-''" and ne: "ds \<noteq> []"
    and dig: "list_all isDigit ds"
    and colon: "CHR '':'' \<notin> set w" and dash: "CHR ''-'' \<notin> set w"
  shows "sg @ ds @ '' '' @ w \<noteq> []"
    and "hd (sg @ ds @ '' '' @ w) \<in> set ''+-0123456789''"
    and "hd (sg @ ds @ '' '' @ w) \<notin> set ''acfjlsuw''"
    and "\<not> (CHR '':'' \<in> set (sg @ ds @ '' '' @ w)
           \<or> (hd (sg @ ds @ '' '' @ w) \<in> set ''+-'' \<and> CHR ''-'' \<in> set (tl (sg @ ds @ '' '' @ w))))"
proof -
  define z where "z = sg @ ds @ '' '' @ w"
  obtain d ds' where ds: "ds = d # ds'"
    using ne by (cases ds) auto
  have d: "isDigit d"
    using dig ds by simp
  show "sg @ ds @ '' '' @ w \<noteq> []"
    by (simp add: ds)
  have hd_z: "hd z = CHR ''+'' \<or> hd z = CHR ''-'' \<or> isDigit (hd z)"
    using sg d by (elim disjE) (simp_all add: z_def ds)
  have "hd z \<in> set ''+-0123456789''"
    using hd_z isDigit_other(4) by (elim disjE) simp_all
  then show "hd (sg @ ds @ '' '' @ w) \<in> set ''+-0123456789''"
    by (simp add: z_def)
  have "hd z \<notin> set ''acfjlsuw''"
    using hd_z isDigit_other(5) by (elim disjE) simp_all
  then show "hd (sg @ ds @ '' '' @ w) \<notin> set ''acfjlsuw''"
    by (simp add: z_def)
  have sg_colon: "CHR '':'' \<notin> set sg"
    using sg by (elim disjE) simp_all
  have c: "CHR '':'' \<notin> set z"
    using sg_colon digits_no_space(2) [OF dig] colon by (auto simp: z_def)
  have tl_z: "set (tl z) \<subseteq> set ds \<union> {CHR '' ''} \<union> set w"
    using sg by (elim disjE) (auto simp: z_def ds)
  have "CHR ''-'' \<notin> set (tl z)"
    using tl_z digits_no_space(3) [OF dig] dash by auto
  with c show "\<not> (CHR '':'' \<in> set (sg @ ds @ '' '' @ w)
           \<or> (hd (sg @ ds @ '' '' @ w) \<in> set ''+-'' \<and> CHR ''-'' \<in> set (tl (sg @ ds @ '' '' @ w))))"
    unfolding z_def by blast
qed

text \<open>
  A whole number of days, hours, minutes or seconds, with or without a sign and with or
  without the final \<^verbatim>\<open>s\<close>, is the shift by that many seconds.
\<close>

lemma sqlite_modifier_whole:
  assumes sg: "sg = [] \<or> sg = ''+'' \<or> sg = ''-''" and ne: "ds \<noteq> []"
    and dig: "list_all isDigit ds" and bound: "decimalValue 0 ds \<le> 5000000"
    and f: "unitSeconds name = Some f" and u: "u = name \<or> u = name @ ''s''"
  shows "sqlite_modifier (sg @ ds @ '' '' @ u)
           = Shift ((if sg = ''-'' then - 1 else 1) * int (decimalValue 0 ds) * f)"
proof -
  define k where "k = (if sg = ''-'' then - 1 else 1) * int (decimalValue 0 ds)"
  have sg_lower: "map toLower sg = sg"
    using sg by (elim disjE) (simp_all add: toLower_def)
  have sp_lower: "toLower (CHR '' '') = CHR '' ''"
    by (simp add: toLower_def)
  have low: "map toLower (sg @ ds @ '' '' @ u) = sg @ ds @ '' '' @ u"
    by (simp add: sg_lower digits_lower [OF dig] unit_lower [OF f u] sp_lower)
  note parts = number_and_word [OF sg dig unit_no_space [OF f u]]
  note head = number_and_word_head [OF sg ne dig
      unit_chars [OF f u, THEN conjunct1] unit_chars [OF f u, THEN conjunct2]]
  have kb: "\<bar>k\<bar> \<le> 5000000"
    using bound by (simp add: k_def abs_mult)
  have wn: "wholeNumber (sg @ ds) = Some k"
    unfolding k_def by (rule wholeNumber_signed [OF sg ne dig])
  have "sqlite_modifier (sg @ ds @ '' '' @ u) = Shift (k * f)"
    unfolding sqlite_modifier_def low Let_def parts wn
    using head unit_length [OF f u] unit_name [OF f u] kb
    by (simp only: if_False if_True option.case simp_thms)
  then show ?thesis
    by (simp add: k_def)
qed

text \<open>
  Not recognised: a text that does not begin with a digit, a sign or one of the letters
  that begin a listed modifier (\<^verbatim>\<open>tomorrow\<close>, \<^verbatim>\<open>next week\<close>, \<^verbatim>\<open>P14D\<close>, a text that begins with
  a blank); and a number followed by a word that is not a unit (\<^verbatim>\<open>14 dayz\<close>, \<^verbatim>\<open>2 weeks\<close>).
\<close>

lemma sqlite_modifier_first_char:
  assumes "m = [] \<or> toLower (hd m) \<notin> set ''acfjlsuw+-0123456789''"
  shows "sqlite_modifier m = Invalid"
proof (cases m)
  case Nil
  then show ?thesis by (simp add: sqlite_modifier_def)
next
  case (Cons c cs)
  then have "toLower c \<notin> set ''acfjlsuw+-0123456789''"
    using assms by simp
  then show ?thesis
    unfolding Cons sqlite_modifier_def Let_def by simp
qed

lemma sqlite_modifier_unknown_unit:
  assumes sg: "sg = [] \<or> sg = ''+'' \<or> sg = ''-''" and ne: "ds \<noteq> []"
    and dig: "list_all isDigit ds"
    and w: "map toLower w = lw" "dropWhile isSpace lw = lw"
      "CHR '':'' \<notin> set lw" "CHR ''-'' \<notin> set lw"
    and name: "(if lw \<noteq> [] \<and> last lw = CHR ''s'' then butlast lw else lw)
                 \<notin> set [''second'', ''minute'', ''hour'', ''day'', ''month'', ''year'']"
  shows "sqlite_modifier (sg @ ds @ '' '' @ w) = Invalid"
proof -
  define nm where "nm = (if lw \<noteq> [] \<and> last lw = CHR ''s'' then butlast lw else lw)"
  have sg_lower: "map toLower sg = sg"
    using sg by (elim disjE) (simp_all add: toLower_def)
  have sp_lower: "toLower (CHR '' '') = CHR '' ''"
    by (simp add: toLower_def)
  have low: "map toLower (sg @ ds @ '' '' @ w) = sg @ ds @ '' '' @ lw"
    by (simp add: sg_lower digits_lower [OF dig] w(1) sp_lower)
  note parts = number_and_word [OF sg dig w(2)]
  note head = number_and_word_head [OF sg ne dig w(3) w(4)]
  have no_unit: "unitSeconds nm = None"
    using name unfolding nm_def [symmetric] by (simp add: unitSeconds_def)
  have not_other: "nm \<notin> set [''month'', ''year'']"
    using name unfolding nm_def [symmetric] by simp
  show ?thesis
    unfolding sqlite_modifier_def low Let_def parts nm_def [symmetric]
    using head no_unit not_other
    by (simp only: if_False if_True option.case simp_thms if_cancel)
qed

lemma unitSeconds_table:
  assumes "(name, f) \<in> set [(''second'', 1), (''minute'', 60), (''hour'', 3600), (''day'', 86400)]"
  shows "unitSeconds name = Some f"
proof -
  have "(name = ''second'' \<and> f = 1) \<or> (name = ''minute'' \<and> f = 60)
      \<or> (name = ''hour'' \<and> f = 3600) \<or> (name = ''day'' \<and> f = 86400)"
    using assms unfolding list.set insert_iff empty_iff prod.inject by blast
  then show ?thesis
    by (elim disjE conjE) (simp_all add: unitSeconds_def)
qed

text \<open>The value of \<^verbatim>\<open>DATETIME('now', m)\<close> in the two cases.\<close>

lemma sqlite_datetime_shift:
  assumes "sqlite_modifier m = Shift k"
    and "- 62167219200 \<le> sqlite_now e + k" and "sqlite_now e + k \<le> 253402300799"
  shows "sqlite_datetime e m = Some (sqlite_text (sqlite_now e + k))"
  using assms by (simp add: sqlite_datetime_def)

lemma sqlite_datetime_invalid:
  assumes "sqlite_modifier m = Invalid"
  shows "sqlite_datetime e m = None"
  using assms by (simp add: sqlite_datetime_def)

lemma ex_texts:
  "rfc3339 1762603200 = ''2025-11-08T12:00:00Z''"
  "sqlite_text 1763812800 = ''2025-11-22 12:00:00''"
  "sqlite_text 1763812801 = ''2025-11-22 12:00:01''"
  by (simp_all add: rfc3339_def sqlite_text_def clockText_def civil_from_days_def dec4_def
        dec2_def decDigit_def Let_def)

lemma ex_modifiers:
  "sqlite_modifier ''+14 days'' = Shift 1209600"
  "sqlite_modifier ''14 dayz'' = Invalid"
  by (simp_all add: sqlite_modifier_def toLower_def isSpace_def isDigit_def wholeNumber_def
        unitSeconds_def keywordModifiers_def Let_def)

subsection \<open>The command\<close>

text \<open>
  C7. When \<^verbatim>\<open>doneCmd\<close> runs (a path is given, it can be made absolute, the update returns no
  error), every row with the hash of the location and the treatment gets \<^verbatim>\<open>done_at\<close> = the
  instant that the process read from its clock, as RFC 3339 text, \<^verbatim>\<open>result\<close> = the value
  supplied and \<^verbatim>\<open>next_at\<close> = NULL when no revisit was given, else the value of
  \<^verbatim>\<open>DATETIME('now', revisit)\<close>; every other row stays as it was. For a revisit that is a
  whole number (up to 5000000) of days, hours, minutes or seconds, that value is the instant
  that SQLite reads from the clock when it runs the statement, moved by the duration, as
  SQLite's text (as long as it lies in the years 0000 to 9999). It is \<^verbatim>\<open>done_at\<close> plus the
  duration only if the two readings of the clock show the same second. For a revisit that
  is not recognised it is NULL.
\<close>

theorem done_marks_complete:
  assumes "p \<noteq> []" and "filepath_abs e p = Some a"
  shows "(\<exists>q'. doneCmd e p res revisit t True q = Inr q' \<and> length q' = length q
           \<and> (\<forall>i < length q.
                if path_hash (q ! i) = pathHash e a \<and> treatment (q ! i) = t
                then q' ! i = (q ! i)\<lparr>done_at := Some (rfc3339 (time_now e)), result := Some res,
                       next_at := (if revisit = [] then None else sqlite_datetime e revisit)\<rparr>
                else q' ! i = q ! i))
       \<and> (\<forall>sg ds name u f k.
             revisit = sg @ ds @ '' '' @ u \<and> (sg = [] \<or> sg = ''+'' \<or> sg = ''-'')
             \<and> ds \<noteq> [] \<and> list_all isDigit ds \<and> decimalValue 0 ds \<le> 5000000
             \<and> (name, f) \<in> set [(''second'', 1), (''minute'', 60), (''hour'', 3600), (''day'', 86400)]
             \<and> (u = name \<or> u = name @ ''s'')
             \<and> k = (if sg = ''-'' then - 1 else 1) * int (decimalValue 0 ds) * f
             \<and> - 62167219200 \<le> sqlite_now e + k \<and> sqlite_now e + k \<le> 253402300799 \<longrightarrow>
             sqlite_datetime e revisit = Some (sqlite_text (sqlite_now e + k))
             \<and> (sqlite_now e = time_now e \<longrightarrow>
                  sqlite_datetime e revisit = Some (sqlite_text (time_now e + k))))
       \<and> (sqlite_modifier revisit = Invalid \<longrightarrow> sqlite_datetime e revisit = None)"
proof -
  have rows: "\<exists>q'. doneCmd e p res revisit t True q = Inr q' \<and> length q' = length q
           \<and> (\<forall>i < length q.
                if path_hash (q ! i) = pathHash e a \<and> treatment (q ! i) = t
                then q' ! i = (q ! i)\<lparr>done_at := Some (rfc3339 (time_now e)), result := Some res,
                       next_at := (if revisit = [] then None else sqlite_datetime e revisit)\<rparr>
                else q' ! i = q ! i)"
    using assms by (simp add: doneCmd_def markDone_def)
  have shift: "sqlite_datetime e revisit = Some (sqlite_text (sqlite_now e + k))
             \<and> (sqlite_now e = time_now e \<longrightarrow>
                  sqlite_datetime e revisit = Some (sqlite_text (time_now e + k)))"
    if "revisit = sg @ ds @ '' '' @ u" "sg = [] \<or> sg = ''+'' \<or> sg = ''-''"
      "ds \<noteq> []" "list_all isDigit ds" "decimalValue 0 ds \<le> 5000000"
      "(name, f) \<in> set [(''second'', 1), (''minute'', 60), (''hour'', 3600), (''day'', 86400)]"
      "u = name \<or> u = name @ ''s''"
      "k = (if sg = ''-'' then - 1 else 1) * int (decimalValue 0 ds) * f"
      "- 62167219200 \<le> sqlite_now e + k" "sqlite_now e + k \<le> 253402300799"
    for sg ds name u f k
  proof -
    have "sqlite_modifier revisit = Shift k"
      unfolding that(1) that(8)
      by (rule sqlite_modifier_whole [OF that(2-5) unitSeconds_table [OF that(6)] that(7)])
    then have "sqlite_datetime e revisit = Some (sqlite_text (sqlite_now e + k))"
      using that(9,10) by (rule sqlite_datetime_shift)
    then show ?thesis by simp
  qed
  have invalid: "sqlite_modifier revisit = Invalid \<longrightarrow> sqlite_datetime e revisit = None"
    by (simp add: sqlite_datetime_invalid)
  from shift have shift_all: "\<forall>sg ds name u f k.
             revisit = sg @ ds @ '' '' @ u \<and> (sg = [] \<or> sg = ''+'' \<or> sg = ''-'')
             \<and> ds \<noteq> [] \<and> list_all isDigit ds \<and> decimalValue 0 ds \<le> 5000000
             \<and> (name, f) \<in> set [(''second'', 1), (''minute'', 60), (''hour'', 3600), (''day'', 86400)]
             \<and> (u = name \<or> u = name @ ''s'')
             \<and> k = (if sg = ''-'' then - 1 else 1) * int (decimalValue 0 ds) * f
             \<and> - 62167219200 \<le> sqlite_now e + k \<and> sqlite_now e + k \<le> 253402300799 \<longrightarrow>
             sqlite_datetime e revisit = Some (sqlite_text (sqlite_now e + k))
             \<and> (sqlite_now e = time_now e \<longrightarrow>
                  sqlite_datetime e revisit = Some (sqlite_text (time_now e + k)))"
    by blast
  show ?thesis
    by (rule conjI [OF rows conjI [OF shift_all invalid]])
qed

theorem done_marks_complete_witness:
  "doneCmd ex_env ''a.go'' ''abc123'' ''+14 days'' ''lint'' True [ex_a, ex_c]
     = Inr [ex_a\<lparr>done_at := Some ''2025-11-08T12:00:00Z'', result := Some ''abc123'',
                 next_at := Some ''2025-11-22 12:00:01''\<rparr>, ex_c]
   \<and> sqlite_datetime ex_env ''+14 days'' = Some ''2025-11-22 12:00:01''
   \<and> sqlite_datetime ex_env ''+14 days'' = Some (sqlite_text (sqlite_now ex_env + 14 * 86400))"
proof -
  note T = done_marks_complete [of "''a.go''" ex_env "''/w/a.go''" "''abc123''" "''+14 days''"
      "''lint''" "[ex_a, ex_c]"]
  have hyps: "''a.go'' \<noteq> []" "filepath_abs ex_env ''a.go'' = Some ''/w/a.go''"
    by (simp_all add: ex_env_def)
  have form: "''+14 days'' = ''+'' @ ''14'' @ '' '' @ ''days''
      \<and> (''+'' = [] \<or> ''+'' = ''+'' \<or> ''+'' = ''-'')
      \<and> ''14'' \<noteq> [] \<and> list_all isDigit ''14'' \<and> decimalValue 0 ''14'' \<le> 5000000
      \<and> (''day'', 86400) \<in> set [(''second'', 1), (''minute'', 60), (''hour'', 3600), (''day'', 86400)]
      \<and> (''days'' = ''day'' \<or> ''days'' = ''day'' @ ''s'')
      \<and> 1209600 = (if ''+'' = ''-'' then - 1 else 1) * int (decimalValue 0 ''14'') * 86400
      \<and> - 62167219200 \<le> sqlite_now ex_env + 1209600
      \<and> sqlite_now ex_env + 1209600 \<le> 253402300799"
    by (simp add: isDigit_def ex_env_def)
  have shifted: "sqlite_datetime ex_env ''+14 days''
                 = Some (sqlite_text (sqlite_now ex_env + 1209600))"
    using T [OF hyps, THEN conjunct2, THEN conjunct1, rule_format,
        of "''+''" "''14''" "''days''" "''day''" 86400 1209600, OF form]
    by (rule conjunct1)
  have shown: "sqlite_text (sqlite_now ex_env + 1209600) = ''2025-11-22 12:00:01''"
    by (simp add: ex_env_def ex_texts)
  obtain q' where run: "doneCmd ex_env ''a.go'' ''abc123'' ''+14 days'' ''lint'' True [ex_a, ex_c]
      = Inr q'"
    using T [OF hyps, THEN conjunct1] by blast
  have "doneCmd ex_env ''a.go'' ''abc123'' ''+14 days'' ''lint'' True [ex_a, ex_c]
     = Inr [ex_a\<lparr>done_at := Some ''2025-11-08T12:00:00Z'', result := Some ''abc123'',
                 next_at := Some ''2025-11-22 12:00:01''\<rparr>, ex_c]"
    unfolding doneCmd_def markDone_def shifted [unfolded shown]
    by (simp add: ex_env_def ex_hash_def ex_a_def ex_c_def ex_texts)
  then show ?thesis
    using shifted shown by simp
qed

text \<open>
  The claim as worded does not hold. With the process reading 12:00:00 and SQLite running
  the statement at 12:00:01, a revisit of 14 days gives \<^verbatim>\<open>next_at\<close> = 12:00:01 fourteen days
  later, which is not \<^verbatim>\<open>done_at\<close> plus fourteen days. And a revisit that is supplied but is
  not a modifier gives \<^verbatim>\<open>next_at\<close> = NULL.
\<close>

theorem done_next_at_counterexample:
  "doneCmd ex_env ''a.go'' ''abc123'' ''+14 days'' ''lint'' True [ex_a]
     = Inr [ex_a\<lparr>done_at := Some (rfc3339 1762603200), result := Some ''abc123'',
                 next_at := Some (sqlite_text (1762603201 + 14 * 86400))\<rparr>]
   \<and> rfc3339 1762603200 = ''2025-11-08T12:00:00Z''
   \<and> sqlite_text (1762603201 + 14 * 86400) = ''2025-11-22 12:00:01''
   \<and> sqlite_text (1762603200 + 14 * 86400) = ''2025-11-22 12:00:00''
   \<and> sqlite_text (1762603201 + 14 * 86400) \<noteq> sqlite_text (1762603200 + 14 * 86400)
   \<and> doneCmd ex_env ''a.go'' ''abc123'' ''14 dayz'' ''lint'' True [ex_a]
     = Inr [ex_a\<lparr>done_at := Some (rfc3339 1762603200), result := Some ''abc123'',
                 next_at := None\<rparr>]"
  by (simp add: doneCmd_def markDone_def sqlite_datetime_def ex_modifiers ex_texts ex_env_def
        ex_hash_def ex_a_def)

text \<open>
  C10. With a revisit that is not empty and that SQLite does not recognise as a modifier,
  \<^verbatim>\<open>doneCmd\<close> does what it does with no revisit at all, whatever the path and whether or not
  the store accepts the update: it fails only where the command without a revisit fails.
  When the update is accepted the matching rows are marked done with the result, and their
  \<^verbatim>\<open>next_at\<close> is NULL.
\<close>

theorem done_invalid_revisit:
  assumes "revisit \<noteq> []" and "sqlite_modifier revisit = Invalid"
  shows "doneCmd e p res revisit t exec_ok q = doneCmd e p res [] t exec_ok q
       \<and> (p \<noteq> [] \<and> filepath_abs e p = Some a \<and> exec_ok \<longrightarrow>
            (\<exists>q'. doneCmd e p res revisit t exec_ok q = Inr q' \<and> length q' = length q
               \<and> (\<forall>i < length q.
                    if path_hash (q ! i) = pathHash e a \<and> treatment (q ! i) = t
                    then q' ! i = (q ! i)\<lparr>done_at := Some (rfc3339 (time_now e)),
                           result := Some res, next_at := None\<rparr>
                    else q' ! i = q ! i)))"
  using assms by (simp add: doneCmd_def markDone_def sqlite_datetime_invalid split: option.splits)

theorem done_invalid_revisit_witness:
  "''14 dayz'' \<noteq> [] \<and> sqlite_modifier ''14 dayz'' = Invalid
   \<and> doneCmd ex_env ''a.go'' ''abc123'' ''14 dayz'' ''lint'' True [ex_a, ex_c]
     = Inr [ex_a\<lparr>done_at := Some ''2025-11-08T12:00:00Z'', result := Some ''abc123'',
                 next_at := None\<rparr>, ex_c]
   \<and> doneCmd ex_env ''a.go'' ''abc123'' ''14 dayz'' ''lint'' False [ex_a, ex_c]
     = Inl UpdateError
   \<and> doneCmd ex_env ''a.go'' ''abc123'' [] ''lint'' False [ex_a, ex_c] = Inl UpdateError"
proof -
  have hyps: "''14 dayz'' \<noteq> []" "sqlite_modifier ''14 dayz'' = Invalid"
    by (simp_all add: ex_modifiers)
  note T = done_invalid_revisit [OF hyps, of ex_env "''a.go''" "''abc123''" "''lint''" _
      "[ex_a, ex_c]" "''/w/a.go''"]
  have plain: "doneCmd ex_env ''a.go'' ''abc123'' [] ''lint'' True [ex_a, ex_c]
     = Inr [ex_a\<lparr>done_at := Some ''2025-11-08T12:00:00Z'', result := Some ''abc123'',
                 next_at := None\<rparr>, ex_c]"
    by (simp add: doneCmd_def markDone_def ex_env_def ex_hash_def ex_a_def ex_c_def ex_texts)
  have failed: "doneCmd ex_env ''a.go'' ''abc123'' [] ''lint'' False [ex_a, ex_c] = Inl UpdateError"
    by (simp add: doneCmd_def ex_env_def)
  show ?thesis
    using hyps T [of True, THEN conjunct1] T [of False, THEN conjunct1] plain failed
    by simp
qed

text \<open>
  The same holds whenever \<^verbatim>\<open>DATETIME\<close> yields NULL, also for a modifier whose value is left
  open here.
\<close>

lemma done_null_revisit:
  assumes "sqlite_datetime e revisit = None"
  shows "doneCmd e p res revisit t exec_ok q = doneCmd e p res [] t exec_ok q"
  using assms by (simp add: doneCmd_def split: option.splits)

text \<open>
  The earlier revision marks the rows found by path in the same way, also with a revisit
  that \<^verbatim>\<open>DATETIME\<close> does not recognise.
\<close>

lemma doneCmd_v1_marks:
  assumes "p \<noteq> []" and "filepath_abs e p = Some a"
  shows "\<exists>q'. doneCmd_v1 e p res revisit t True q = Inr q' \<and> length q' = length q
          \<and> (\<forall>i < length q.
               if path (q ! i) = a \<and> treatment (q ! i) = t
               then q' ! i = (q ! i)\<lparr>done_at := Some (rfc3339 (time_now e)), result := Some res,
                      next_at := (if revisit = [] then None else sqlite_datetime e revisit)\<rparr>
               else q' ! i = q ! i)"
  using assms by (simp add: doneCmd_v1_def)

section \<open>Properties of status\<close>

lemma length_filter_disj:
  assumes "\<And>x. x \<in> set xs \<Longrightarrow> \<not> (A x \<and> B x)"
  shows "length (filter A xs) + length (filter B xs) = length (filter (\<lambda>x. A x \<or> B x) xs)"
  using assms by (induction xs) auto

lemma group_counts_sum:
  assumes "distinct ks"
  shows "(\<Sum>k\<leftarrow>ks. int (length (filter (\<lambda>r. g r = k \<and> P r) xs)))
           = int (length (filter (\<lambda>r. g r \<in> set ks \<and> P r) xs))"
  using assms
proof (induction ks)
  case Nil
  then show ?case by simp
next
  case (Cons k ks)
  have "length (filter (\<lambda>r. g r = k \<and> P r) xs) + length (filter (\<lambda>r. g r \<in> set ks \<and> P r) xs)
          = length (filter (\<lambda>r. (g r = k \<and> P r) \<or> (g r \<in> set ks \<and> P r)) xs)"
    using Cons.prems by (intro length_filter_disj) auto
  also have "(\<lambda>r. (g r = k \<and> P r) \<or> (g r \<in> set ks \<and> P r)) = (\<lambda>r. g r \<in> set (k # ks) \<and> P r)"
    by auto
  finally show ?case
    using Cons by simp
qed

lemma group_counts_total:
  fixes g :: "'a \<Rightarrow> 'b :: linorder"
  shows "(\<Sum>k\<leftarrow>sort (remdups (map g xs)). int (length (filter (\<lambda>r. g r = k \<and> P r) xs)))
     = int (length (filter P xs))"
proof -
  have "filter (\<lambda>r. g r \<in> set (sort (remdups (map g xs))) \<and> P r) xs = filter P xs"
    by (intro filter_cong) auto
  moreover have "distinct (sort (remdups (map g xs)))"
    by simp
  ultimately show ?thesis
    using group_counts_sum [of "sort (remdups (map g xs))" g P xs] by simp
qed

lemma scanRows_all_Some:
  "scanRows (map (\<lambda>(t, p, d). (t, Some p, Some d)) xs)
     = map (\<lambda>(t, p, d). \<lparr>Treatment = t, Pending = p, Done = d\<rparr>) xs"
  by (induction xs) auto

lemma set_scanRows:
  "set (scanRows xs) = {\<lparr>Treatment = t, Pending = p, Done = d\<rparr> | t p d. (t, Some p, Some d) \<in> set xs}"
  by (induction xs rule: scanRows.induct) auto

lemma length_scanRows:
  "length (scanRows xs) = length (filter (\<lambda>(t, p, d). p \<noteq> None \<and> d \<noteq> None) xs)"
  by (induction xs rule: scanRows.induct) auto

lemma stats_src:
  "(if f = [] then q else filter (\<lambda>r. treatment r = f) q)
     = filter (\<lambda>r. f = [] \<or> treatment r = f) q"
  by (auto intro: filter_cong)

text \<open>
  What the two \<^verbatim>\<open>SELECT\<close>s describe, and what the loop would keep of it. When at least one
  row matches the filter: one entry for each treatment that matches, with the numbers of
  its pending and of its done rows, and one entry \<^verbatim>\<open>TOTAL\<close> with the numbers of pending and
  done rows among all matching rows.
\<close>

lemma status_rows_counts:
  assumes "\<exists>r \<in> set q. f = [] \<or> treatment r = f"
  shows "set (scanRows (statusRows q f)) =
           (\<lambda>t. \<lparr>Treatment = t,
                  Pending = int (length (filter (\<lambda>r. treatment r = t \<and> done_at r = None) q)),
                  Done = int (length (filter (\<lambda>r. treatment r = t \<and> done_at r \<noteq> None) q))\<rparr>)
             ` {t. (f = [] \<or> t = f) \<and> (\<exists>r \<in> set q. treatment r = t)}
           \<union> {\<lparr>Treatment = ''TOTAL'',
                Pending = int (length (filter (\<lambda>r. (f = [] \<or> treatment r = f) \<and> done_at r = None) q)),
                Done = int (length (filter (\<lambda>r. (f = [] \<or> treatment r = f) \<and> done_at r \<noteq> None) q))\<rparr>}
       \<and> length (scanRows (statusRows q f))
           = card {t. (f = [] \<or> t = f) \<and> (\<exists>r \<in> set q. treatment r = t)} + 1"
proof -
  define src where "src = filter (\<lambda>r. f = [] \<or> treatment r = f) q"
  define ts where "ts = sort (remdups (map treatment src))"
  define P where "P t = int (length (filter (\<lambda>r. treatment r = t \<and> done_at r = None) src))" for t
  define D where "D t = int (length (filter (\<lambda>r. treatment r = t \<and> done_at r \<noteq> None) src))" for t
  define T where "T = {t. (f = [] \<or> t = f) \<and> (\<exists>r \<in> set q. treatment r = t)}"
  have st: "stats q f = map (\<lambda>t. (t, P t, D t)) ts"
    unfolding stats_def stats_src by (simp add: Let_def src_def ts_def P_def D_def)
  have set_ts: "set ts = T"
    by (auto simp: ts_def src_def T_def)
  have "src \<noteq> []"
    using assms by (auto simp: src_def filter_empty_conv)
  then have "set ts \<noteq> {}"
    by (simp add: ts_def)
  then have ts_ne: "ts \<noteq> []"
    by auto
  have Pq: "P t = int (length (filter (\<lambda>r. treatment r = t \<and> done_at r = None) q))"
    and Dq: "D t = int (length (filter (\<lambda>r. treatment r = t \<and> done_at r \<noteq> None) q))"
    if "t \<in> T" for t
  proof -
    have "filter (\<lambda>r. treatment r = t \<and> done_at r = None) src
            = filter (\<lambda>r. treatment r = t \<and> done_at r = None) q"
      using that unfolding src_def filter_filter
      by (intro filter_cong) (auto simp: T_def)
    then show "P t = int (length (filter (\<lambda>r. treatment r = t \<and> done_at r = None) q))"
      by (simp add: P_def)
    have "filter (\<lambda>r. treatment r = t \<and> done_at r \<noteq> None) src
            = filter (\<lambda>r. treatment r = t \<and> done_at r \<noteq> None) q"
      using that unfolding src_def filter_filter
      by (intro filter_cong) (auto simp: T_def)
    then show "D t = int (length (filter (\<lambda>r. treatment r = t \<and> done_at r \<noteq> None) q))"
      by (simp add: D_def)
  qed
  have sumP: "sum_list (map P ts)
      = int (length (filter (\<lambda>r. (f = [] \<or> treatment r = f) \<and> done_at r = None) q))"
  proof -
    have "sum_list (map P ts) = int (length (filter (\<lambda>r. done_at r = None) src))"
      unfolding ts_def P_def by (rule group_counts_total)
    also have "filter (\<lambda>r. done_at r = None) src
                 = filter (\<lambda>r. (f = [] \<or> treatment r = f) \<and> done_at r = None) q"
      unfolding src_def filter_filter by (intro filter_cong) auto
    finally show ?thesis .
  qed
  have sumD: "sum_list (map D ts)
      = int (length (filter (\<lambda>r. (f = [] \<or> treatment r = f) \<and> done_at r \<noteq> None) q))"
  proof -
    have "sum_list (map D ts) = int (length (filter (\<lambda>r. done_at r \<noteq> None) src))"
      unfolding ts_def D_def by (rule group_counts_total)
    also have "filter (\<lambda>r. done_at r \<noteq> None) src
                 = filter (\<lambda>r. (f = [] \<or> treatment r = f) \<and> done_at r \<noteq> None) q"
      unfolding src_def filter_filter by (intro filter_cong) auto
    finally show ?thesis .
  qed
  define rows where
    "rows = map (\<lambda>(t, p, d). (t, Some p, Some d)) (map (\<lambda>t. (t, P t, D t)) ts @
              [(''TOTAL'', sum_list (map P ts), sum_list (map D ts))])"
  have query: "statusRows q f = rows"
    using ts_ne by (simp add: statusRows_def st Let_def sql_sum_def rows_def comp_def)
  have set_rows: "{\<lparr>Treatment = t, Pending = p, Done = d\<rparr> | t p d. (t, Some p, Some d) \<in> set rows}
      = (\<lambda>t. \<lparr>Treatment = t, Pending = P t, Done = D t\<rparr>) ` set ts
        \<union> {\<lparr>Treatment = ''TOTAL'', Pending = sum_list (map P ts), Done = sum_list (map D ts)\<rparr>}"
    by (auto simp: rows_def)
  have "set (scanRows (statusRows q f))
      = (\<lambda>t. \<lparr>Treatment = t, Pending = P t, Done = D t\<rparr>) ` T
        \<union> {\<lparr>Treatment = ''TOTAL'', Pending = sum_list (map P ts), Done = sum_list (map D ts)\<rparr>}"
    by (simp add: query set_scanRows set_rows set_ts)
  also have "(\<lambda>t. \<lparr>Treatment = t, Pending = P t, Done = D t\<rparr>) ` T
      = (\<lambda>t. \<lparr>Treatment = t,
                  Pending = int (length (filter (\<lambda>r. treatment r = t \<and> done_at r = None) q)),
                  Done = int (length (filter (\<lambda>r. treatment r = t \<and> done_at r \<noteq> None) q))\<rparr>) ` T"
    by (intro image_cong) (simp_all add: Pq Dq)
  finally have part1: "set (scanRows (statusRows q f))
      = (\<lambda>t. \<lparr>Treatment = t,
                  Pending = int (length (filter (\<lambda>r. treatment r = t \<and> done_at r = None) q)),
                  Done = int (length (filter (\<lambda>r. treatment r = t \<and> done_at r \<noteq> None) q))\<rparr>) ` T
        \<union> {\<lparr>Treatment = ''TOTAL'',
                Pending = int (length (filter (\<lambda>r. (f = [] \<or> treatment r = f) \<and> done_at r = None) q)),
                Done = int (length (filter (\<lambda>r. (f = [] \<or> treatment r = f) \<and> done_at r \<noteq> None) q))\<rparr>}"
    by (simp only: sumP sumD)
  have all_ok: "filter (\<lambda>(t, p, d). p \<noteq> None \<and> d \<noteq> None) rows = rows"
    by (auto simp: rows_def filter_id_conv)
  have "length (scanRows (statusRows q f))
      = length (filter (\<lambda>(t, p, d). p \<noteq> None \<and> d \<noteq> None) rows)"
    unfolding query by (rule length_scanRows)
  also have "\<dots> = length rows"
    unfolding all_ok ..
  also have "\<dots> = length ts + 1"
    by (simp add: rows_def)
  also have "length ts = card T"
    unfolding set_ts [symmetric] ts_def
    by (metis distinct_card distinct_remdups distinct_sort)
  finally have part2: "length (scanRows (statusRows q f)) = card T + 1" .
  show ?thesis
    using part1 part2 unfolding T_def by blast
qed

text \<open>When no row matches, \<^verbatim>\<open>SUM\<close> yields NULL and the only row, \<^verbatim>\<open>TOTAL\<close>, does not scan.\<close>

lemma status_rows_none:
  assumes "\<not> (\<exists>r \<in> set q. f = [] \<or> treatment r = f)"
  shows "scanRows (statusRows q f) = []"
proof -
  have "filter (\<lambda>r. f = [] \<or> treatment r = f) q = []"
    using assms by (auto simp: filter_empty_conv)
  then have "stats q f = []"
    unfolding stats_def stats_src by simp
  then show ?thesis
    by (simp add: statusRows_def sql_sum_def)
qed

text \<open>
  The earlier revision reports the same counts for each treatment and no total, the
  treatments in ascending order.
\<close>

lemma statusCmd_v1_rows:
  "statusCmd_v1 q f = map (\<lambda>(t, p, d). \<lparr>Treatment = t, Pending = p, Done = d\<rparr>) (stats q f)
   \<and> length (statusCmd_v1 q f) = length (stats q f)
   \<and> scanRows (statusRows q f) = statusCmd_v1 q f @ scanRows [last (statusRows q f)]
   \<and> sorted (map Treatment (statusCmd_v1 q f))"
proof -
  have "scanRows (xs @ ys) = scanRows xs @ scanRows ys" for xs ys
    by (induction xs rule: scanRows.induct) simp_all
  moreover have "map Treatment (statusCmd_v1 q f)
      = sort (remdups (map treatment (if f = [] then q else filter (\<lambda>r. treatment r = f) q)))"
    by (simp add: statusCmd_v1_def stats_def Let_def comp_def)
  ultimately show ?thesis
    by (simp add: statusCmd_v1_def statusRows_def Let_def scanRows_all_Some)
qed

lemma statusCmd_v1_example:
  "statusCmd_v1 [ex_c, ex_a, ex_b] []
     = [\<lparr>Treatment = ''lint'', Pending = 1, Done = 1\<rparr>,
        \<lparr>Treatment = ''other'', Pending = 1, Done = 0\<rparr>]"
  by (simp add: statusCmd_v1_def stats_def ex_a_def ex_b_def ex_c_def)

text \<open>
  C8. The claim describes what \<^verbatim>\<open>statusCmd\<close> is written to print and what the test
  \<^verbatim>\<open>TestStatusCmd_ShowsCounts_When_FilteredByTreatment\<close> expects; the statement it sends is
  rejected, whatever the table and the filter: the first \<^verbatim>\<open>ORDER BY\<close> term is not a result
  column. The command reports the query error and prints no row.
\<close>

theorem status_query_rejected:
  "statusCmd q f = Inl QueryError"
  by (simp add: statusCmd_def statusQuery_def compound_order_by_ok_def statusColumns_def
        statusOrderBy_def)

theorem status_query_rejected_witness:
  "statusCmd [ex_a, ex_b, ex_c] ''lint'' = Inl QueryError
   \<and> scanRows (statusRows [ex_a, ex_b, ex_c] ''lint'')
       = [\<lparr>Treatment = ''lint'', Pending = 1, Done = 1\<rparr>,
          \<lparr>Treatment = ''TOTAL'', Pending = 1, Done = 1\<rparr>]"
proof -
  have "scanRows (statusRows [ex_a, ex_b, ex_c] ''lint'')
       = [\<lparr>Treatment = ''lint'', Pending = 1, Done = 1\<rparr>,
          \<lparr>Treatment = ''TOTAL'', Pending = 1, Done = 1\<rparr>]"
    by (simp add: statusRows_def stats_def sql_sum_def ex_a_def ex_b_def ex_c_def)
  with status_query_rejected [of "[ex_a, ex_b, ex_c]" "''lint''"] show ?thesis
    by (rule conjI)
qed

section \<open>Properties of reset\<close>

text \<open>
  C9. A reset that runs (a treatment is given; \<^verbatim>\<open>--yes\<close>, or the answer \<^verbatim>\<open>y\<close> or \<^verbatim>\<open>Y\<close>; the
  \<^verbatim>\<open>DELETE\<close> returns no error) leaves no row of the treatment, keeps every row of another
  treatment as it was and in its place, and reports the number of rows of the treatment,
  which is the number of rows that the table has lost.
\<close>

theorem reset_scope:
  assumes "t \<noteq> []" and "yes \<or> response = ''y'' \<or> response = ''Y''"
  shows "filter (\<lambda>r. treatment r \<noteq> t) (fst (resetCmd t yes response True q))
           = filter (\<lambda>r. treatment r \<noteq> t) q
       \<and> (\<forall>r \<in> set (fst (resetCmd t yes response True q)). treatment r \<noteq> t)
       \<and> snd (resetCmd t yes response True q)
           = Inr (Deleted (length (filter (\<lambda>r. treatment r = t) q)))
       \<and> length (fst (resetCmd t yes response True q))
           + length (filter (\<lambda>r. treatment r = t) q) = length q"
proof -
  have run: "resetCmd t yes response True q =
      (filter (\<lambda>r. treatment r \<noteq> t) q, Inr (Deleted (length (filter (\<lambda>r. treatment r = t) q))))"
    using assms by (auto simp: resetCmd_def)
  have "length (filter (\<lambda>r. treatment r \<noteq> t) q) + length (filter (\<lambda>r. treatment r = t) q)
          = length q"
    using sum_length_filter_compl[of "\<lambda>r. treatment r = t" q] by simp
  then show ?thesis
    unfolding run by simp
qed

theorem reset_scope_witness:
  "resetCmd ''lint'' True [] True [ex_a, ex_b, ex_c] = ([ex_c], Inr (Deleted 2))"
  using reset_scope [of "''lint''" True "[]" "[ex_a, ex_b, ex_c]"]
  by (simp add: resetCmd_def ex_a_def ex_b_def ex_c_def)

section \<open>Properties of the shard partitioner\<close>

lemma hexFixed_numeral:
  "hexFixed (numeral k) v = hexFixed (pred_numeral k) (v div 16) @ [hexDigit (v mod 16)]"
proof -
  have "hexFixed (numeral k) v = hexFixed (Suc (pred_numeral k)) v"
    by (simp only: numeral_eq_Suc)
  then show ?thesis
    by (simp only: hexFixed.simps)
qed

lemma replicate_numeral:
  "replicate (numeral k) x = x # replicate (pred_numeral k) x"
  by (simp only: numeral_eq_Suc replicate_Suc)

lemma ex_range_0_2:
  "calculateShardRange 0 2 =
     (''0000000000000000000000000000000000000000000000000000000000000000'',
      ''8000000000000000000000000000000000000000000000000000000000000000'')"
  by (simp add: calculateShardRange_def shardBounds_def renderBound_def hexFixed_numeral
        hexDigit_def replicate_numeral)

lemma ex_range_1_2:
  "calculateShardRange 1 2 =
     (''8000000000000000000000000000000000000000000000000000000000000000'',
      ''ffffffffffffffff000000000000000000000000000000000000000000000000'')"
  by (simp add: calculateShardRange_def shardBounds_def renderBound_def hexFixed_numeral
        hexDigit_def replicate_numeral)

lemma digitVal_less: "digitVal c < 16"
  by (auto simp: digitVal_def less_eq_char_def)

lemma hexAcc_less: "hexAcc a cs < (a + 1) * 16 ^ length cs"
proof (induction cs arbitrary: a)
  case Nil
  then show ?case by simp
next
  case (Cons c cs)
  have "hexAcc (16 * a + digitVal c) cs < (16 * a + digitVal c + 1) * 16 ^ length cs"
    by (rule Cons.IH)
  also have "\<dots> \<le> (16 * a + 16) * 16 ^ length cs"
    using digitVal_less [of c] by (intro mult_le_mono1) simp
  finally show ?case
    by (simp add: algebra_simps)
qed

lemma leading64_less: "leading64 h < 2 ^ 64"
proof -
  have "leading64 h < 16 ^ length (take 16 h)"
    using hexAcc_less [of 0 "take 16 h"] by (simp add: leading64_def)
  also have "(16::nat) ^ length (take 16 h) \<le> 16 ^ 16"
    by (intro power_increasing) simp_all
  also have "(16::nat) ^ 16 = 2 ^ 64"
    by simp
  finally show ?thesis .
qed

lemma start_mono: "i \<le> j \<Longrightarrow> i * 2 ^ 64 div T \<le> j * 2 ^ 64 div (T::nat)"
  by (intro div_le_mono mult_le_mono1)

lemma between_starts:
  fixes H T :: nat
  assumes "H < n * 2 ^ 64 div T"
  shows "\<exists>i < n. i * 2 ^ 64 div T \<le> H \<and> H < (i + 1) * 2 ^ 64 div T"
  using assms
proof (induction n)
  case 0
  then show ?case by simp
next
  case (Suc n)
  show ?case
  proof (cases "H < n * 2 ^ 64 div T")
    case True
    then obtain i where "i < n" "i * 2 ^ 64 div T \<le> H \<and> H < (i + 1) * 2 ^ 64 div T"
      using Suc.IH by blast
    then show ?thesis
      by (intro exI [of _ i]) simp
  next
    case False
    then show ?thesis
      using Suc.prems by (intro exI [of _ n]) simp
  qed
qed

lemma hexFixed_zero: "hexFixed w 0 = replicate w (CHR ''0'')"
  by (induction w) (simp_all add: hexDigit_def replicate_append_same)

lemma hexFixed_max: "hexFixed w (16 ^ w - 1) = replicate w (CHR ''f'')"
proof (induction w)
  case 0
  then show ?case by simp
next
  case (Suc w)
  have pos: "(16::nat) ^ w > 0" by simp
  then obtain m where m: "(16::nat) ^ w = Suc m"
    using gr0_implies_Suc by blast
  have "(16::nat) ^ Suc w - 1 = 16 * m + 15"
    by (simp add: m)
  then have dm: "((16::nat) ^ Suc w - 1) div 16 = 16 ^ w - 1" "((16::nat) ^ Suc w - 1) mod 16 = 15"
    by (simp_all add: m)
  have "hexFixed (Suc w) (16 ^ Suc w - 1) = hexFixed w (16 ^ w - 1) @ [hexDigit 15]"
    unfolding hexFixed.simps dm ..
  also have "hexDigit 15 = CHR ''f''"
    by (simp add: hexDigit_def)
  finally show ?case
    unfolding Suc.IH by (simp add: replicate_append_same)
qed

lemma renderBound_zero: "renderBound 0 = replicate 64 (CHR ''0'')"
  unfolding renderBound_def hexFixed_zero replicate_add [symmetric] by simp

lemma renderBound_max:
  "renderBound (2 ^ 64 - 1) = replicate 16 (CHR ''f'') @ replicate 48 (CHR ''0'')"
proof -
  have "(2::nat) ^ 64 - 1 = 16 ^ 16 - 1" by simp
  then show ?thesis
    unfolding renderBound_def by (simp only: hexFixed_max)
qed



lemma inShard_unique:
  assumes "i < j" "j < T" "inShard h i T" "inShard h j T"
  shows False
proof -
  have "i + 1 \<noteq> T" using assms(1,2) by simp
  then have "leading64 h < (i + 1) * 2 ^ 64 div T"
    using assms(3) by (simp add: inShard_def shardBounds_def)
  also have "\<dots> \<le> j * 2 ^ 64 div T"
    using assms(1) by (intro start_mono) simp
  also have "\<dots> \<le> leading64 h"
    using assms(4) by (simp add: inShard_def shardBounds_def)
  finally show False by simp
qed

lemma inShard_exists:
  assumes "0 < T"
  shows "\<exists>i < T. inShard h i T"
proof -
  have "T * 2 ^ 64 div T = (2::nat) ^ 64"
    using assms by simp
  then have "leading64 h < T * 2 ^ 64 div T"
    using leading64_less [of h] by simp
  then obtain i where i: "i < T" "i * 2 ^ 64 div T \<le> leading64 h"
      "leading64 h < (i + 1) * 2 ^ 64 div T"
    using between_starts [of "leading64 h" T T] by blast
  have "inShard h i T"
  proof (cases "i + 1 = T")
    case True
    then show ?thesis
      using i(2) leading64_less [of h] by (simp add: inShard_def shardBounds_def)
  next
    case False
    then show ?thesis
      using i(2,3) by (simp add: inShard_def shardBounds_def)
  qed
  then show ?thesis
    using i(1) by blast
qed

text \<open>
  C3. For every number \<open>T \<ge> 1\<close> of shards: shard 0 starts at 0, rendered as the all-zero
  hash; the last shard ends at \<open>2^64 - 1\<close>, the largest value of the leading 64 bits; every
  later shard starts where the one before it ends; no hash belongs to two shards; every
  hash belongs to one.
\<close>

theorem shard_ranges_partition:
  assumes "0 < T"
  shows "fst (shardBounds 0 T) = 0
       \<and> fst (calculateShardRange 0 T) = replicate 64 (CHR ''0'')
       \<and> snd (shardBounds (T - 1) T) = 2 ^ 64 - 1
       \<and> snd (calculateShardRange (T - 1) T)
           = replicate 16 (CHR ''f'') @ replicate 48 (CHR ''0'')
       \<and> (\<forall>i. 0 < i \<and> i < T \<longrightarrow>
             fst (shardBounds i T) = snd (shardBounds (i - 1) T)
             \<and> fst (calculateShardRange i T) = snd (calculateShardRange (i - 1) T))
       \<and> (\<forall>h i j. i < T \<and> j < T \<and> inShard h i T \<and> inShard h j T \<longrightarrow> i = j)
       \<and> (\<forall>h. \<exists>i < T. inShard h i T)"
proof -
  have first: "fst (shardBounds 0 T) = 0"
    by (simp add: shardBounds_def)
  have last: "snd (shardBounds (T - 1) T) = 2 ^ 64 - 1"
    using assms by (simp add: shardBounds_def)
  have contiguous: "fst (shardBounds i T) = snd (shardBounds (i - 1) T)"
    if "0 < i" "i < T" for i
    using that by (simp add: shardBounds_def)
  have unique: "i = j" if "i < T" "j < T" "inShard h i T" "inShard h j T" for h i j
  proof (rule ccontr)
    assume "i \<noteq> j"
    then consider "i < j" | "j < i" by linarith
    then show False
      using that inShard_unique by cases blast+
  qed
  have first_text: "fst (calculateShardRange 0 T) = replicate 64 (CHR ''0'')"
    unfolding calculateShardRange_def fst_conv first by (rule renderBound_zero)
  have last_text: "snd (calculateShardRange (T - 1) T)
      = replicate 16 (CHR ''f'') @ replicate 48 (CHR ''0'')"
    unfolding calculateShardRange_def snd_conv last by (rule renderBound_max)
  have contiguous_text: "fst (calculateShardRange i T) = snd (calculateShardRange (i - 1) T)"
    if "0 < i" "i < T" for i
    unfolding calculateShardRange_def fst_conv snd_conv contiguous [OF that] ..
  have c5: "\<forall>i. 0 < i \<and> i < T \<longrightarrow>
             fst (shardBounds i T) = snd (shardBounds (i - 1) T)
             \<and> fst (calculateShardRange i T) = snd (calculateShardRange (i - 1) T)"
    using contiguous contiguous_text by blast
  have c6: "\<forall>h i j. i < T \<and> j < T \<and> inShard h i T \<and> inShard h j T \<longrightarrow> i = j"
    using unique by blast
  have c7: "\<forall>h. \<exists>i < T. inShard h i T"
    using inShard_exists [OF assms] by blast
  show ?thesis
    by (rule conjI [OF first conjI [OF first_text conjI [OF last conjI [OF last_text
          conjI [OF c5 conjI [OF c6 c7]]]]]])

qed

theorem shard_ranges_partition_witness:
  "fst (calculateShardRange 0 2) = replicate 64 (CHR ''0'')
   \<and> snd (calculateShardRange 1 2) = replicate 16 (CHR ''f'') @ replicate 48 (CHR ''0'')
   \<and> fst (calculateShardRange 1 2) = snd (calculateShardRange 0 2)
   \<and> fst (shardBounds 1 2) = 2 ^ 63"
proof -
  have two: "0 < (2::nat)" by simp
  note t = shard_ranges_partition [OF two]
  have a: "fst (calculateShardRange 0 2) = replicate 64 (CHR ''0'')"
    using t by (elim conjE)
  have "snd (calculateShardRange (2 - 1) 2)
           = replicate 16 (CHR ''f'') @ replicate 48 (CHR ''0'')"
    using t by (elim conjE)
  then have b: "snd (calculateShardRange 1 2) = replicate 16 (CHR ''f'') @ replicate 48 (CHR ''0'')"
    by simp
  have "\<forall>i. 0 < i \<and> i < (2::nat) \<longrightarrow>
             fst (shardBounds i 2) = snd (shardBounds (i - 1) 2)
             \<and> fst (calculateShardRange i 2) = snd (calculateShardRange (i - 1) 2)"
    using t by (elim conjE)
  then have "fst (calculateShardRange 1 2) = snd (calculateShardRange (1 - 1) 2)"
    by simp
  then have c: "fst (calculateShardRange 1 2) = snd (calculateShardRange 0 2)"
    by simp
  have d: "fst (shardBounds 1 2) = 2 ^ 63"
    by (simp add: shardBounds_def)
  show ?thesis
    by (rule conjI [OF a conjI [OF b conjI [OF c d]]])
qed

subsection \<open>The bounds compared as text\<close>

text \<open>
  The specification asks that comparing a hash with a rendered bound as text agrees with
  comparing the leading 64 bits with the bound as numbers. It does for the strict
  comparison with a bound, on hashes of 64 lower-case hexadecimal digits.
\<close>

lemma digit_nat_eq:
  fixes m n :: nat
  assumes "(48 \<le> m \<and> m \<le> 57) \<or> (97 \<le> m \<and> m \<le> 102)"
    and "(48 \<le> n \<and> n \<le> 57) \<or> (97 \<le> n \<and> n \<le> 102)"
    and "(if 48 \<le> m \<and> m \<le> 57 then m - 48 else if 97 \<le> m \<and> m \<le> 102 then m - 87 else 0)
       = (if 48 \<le> n \<and> n \<le> 57 then n - 48 else if 97 \<le> n \<and> n \<le> 102 then n - 87 else 0)"
  shows "m = n"
  using assms by (auto split: if_splits)


lemma digitVal_less_iff:
  assumes "isHex c" "isHex d"
  shows "(c < d) = (digitVal c < digitVal d)"
  using assms by (auto simp: isHex_def digitVal_def less_char_def less_eq_char_def)


lemma digitVal_eq_iff:
  assumes "isHex c" "isHex d"
  shows "(c = d) = (digitVal c = digitVal d)"
proof
  assume "c = d"
  then show "digitVal c = digitVal d" by simp
next
  assume dv: "digitVal c = digitVal d"
  define m :: nat where "m = of_char c"
  define n :: nat where "n = of_char d"
  have c: "(48 \<le> m \<and> m \<le> 57) \<or> (97 \<le> m \<and> m \<le> 102)"
    using assms(1) by (simp add: isHex_def less_eq_char_def m_def)
  have d: "(48 \<le> n \<and> n \<le> 57) \<or> (97 \<le> n \<and> n \<le> 102)"
    using assms(2) by (simp add: isHex_def less_eq_char_def n_def)
  have vc: "digitVal c
      = (if 48 \<le> m \<and> m \<le> 57 then m - 48 else if 97 \<le> m \<and> m \<le> 102 then m - 87 else 0)"
    by (simp add: digitVal_def less_eq_char_def m_def)
  have vd: "digitVal d
      = (if 48 \<le> n \<and> n \<le> 57 then n - 48 else if 97 \<le> n \<and> n \<le> 102 then n - 87 else 0)"
    by (simp add: digitVal_def less_eq_char_def n_def)
  have "m = n"
    using c d dv [unfolded vc vd] by (rule digit_nat_eq)
  then show "c = d"
    unfolding m_def n_def by (simp only: of_char_eq_iff)
qed


lemma hexDigit_table:
  "list_all (\<lambda>d. isHex (hexDigit d) \<and> digitVal (hexDigit d) = d)
     [0, 1, 2, 3, 4, 5, 6, 7, 8, 9, 10, 11, 12, 13, 14, 15]"
  by (simp add: hexDigit_def isHex_def digitVal_def less_eq_char_def)

lemma below_sixteen:
  "d < 16 \<Longrightarrow> d \<in> set [0, 1, 2, 3, 4, 5, 6, 7, 8, 9, 10, 11, 12, 13, 14, 15 :: nat]"
  unfolding list.set insert_iff empty_iff by presburger

lemma hexDigit_isHex: "d < 16 \<Longrightarrow> isHex (hexDigit d)"
  using hexDigit_table below_sixteen unfolding list_all_iff by blast

lemma digitVal_hexDigit: "d < 16 \<Longrightarrow> digitVal (hexDigit d) = d"
  using hexDigit_table below_sixteen unfolding list_all_iff by blast


lemma hexAcc_snoc: "hexAcc a (cs @ [c]) = 16 * hexAcc a cs + digitVal c"
  by (induction cs arbitrary: a) simp_all

lemma length_hexFixed: "length (hexFixed w v) = w"
  by (induction w arbitrary: v) simp_all

lemma hexFixed_isHex: "c \<in> set (hexFixed w v) \<Longrightarrow> isHex c"
  by (induction w arbitrary: v) (auto simp: hexDigit_isHex)

lemma hexAcc_hexFixed: "hexAcc 0 (hexFixed w v) = v mod 16 ^ w"
proof (induction w arbitrary: v)
  case 0
  then show ?case by simp
next
  case (Suc w)
  have "hexAcc 0 (hexFixed (Suc w) v) = 16 * (v div 16 mod 16 ^ w) + v mod 16"
    by (simp add: hexAcc_snoc Suc.IH digitVal_hexDigit)
  also have "\<dots> = v mod (16 * 16 ^ w)"
    by (simp add: mod_mult2_eq)
  finally show ?case by simp
qed

lemma hexAcc_ge: "a * 16 ^ length cs \<le> hexAcc a cs"
proof (induction cs arbitrary: a)
  case Nil
  then show ?case by simp
next
  case (Cons c cs)
  have "a * 16 ^ length (c # cs) = (16 * a) * 16 ^ length cs"
    by simp
  also have "\<dots> \<le> (16 * a + digitVal c) * 16 ^ length cs"
    by (intro mult_le_mono1) simp
  also have "\<dots> \<le> hexAcc (16 * a + digitVal c) cs"
    by (rule Cons.IH)
  finally show ?case by simp
qed

lemma hexAcc_strict:
  assumes "a < b" "length xs = length ys"
  shows "hexAcc a xs < hexAcc b ys"
proof -
  have "hexAcc a xs < (a + 1) * 16 ^ length xs"
    by (rule hexAcc_less)
  also have "\<dots> \<le> b * 16 ^ length ys"
    using assms by (simp del: mult_Suc add: Suc_le_eq [symmetric])
  also have "\<dots> \<le> hexAcc b ys"
    by (rule hexAcc_ge)
  finally show ?thesis .
qed


lemma hex_order:
  assumes "length xs = length ys"
    and "\<And>c. c \<in> set xs \<Longrightarrow> isHex c" and "\<And>c. c \<in> set ys \<Longrightarrow> isHex c"
  shows "(xs < ys) = (hexAcc a xs < hexAcc a ys) \<and> (xs = ys) = (hexAcc a xs = hexAcc a ys)"
  using assms
proof (induction xs ys arbitrary: a rule: list_induct2)
  case Nil
  then show ?case by simp
next
  case (Cons x xs y ys)
  have hx: "isHex x" and hy: "isHex y"
    using Cons.prems by simp_all
  have ih: "(xs < ys) = (hexAcc b xs < hexAcc b ys) \<and> (xs = ys) = (hexAcc b xs = hexAcc b ys)" for b
    using Cons.prems by (intro Cons.IH) simp_all
  consider (lt) "digitVal x < digitVal y" | (eq) "digitVal x = digitVal y"
    | (gt) "digitVal y < digitVal x"
    by linarith
  then show ?case
  proof cases
    case lt
    then have "x < y" "x \<noteq> y"
      using digitVal_less_iff [OF hx hy] by auto
    moreover have "hexAcc (16 * a + digitVal x) xs < hexAcc (16 * a + digitVal y) ys"
      using lt Cons.hyps by (intro hexAcc_strict) simp_all
    ultimately show ?thesis by simp
  next
    case eq
    then have "x = y"
      using digitVal_eq_iff [OF hx hy] by simp
    then show ?thesis
      using ih [of "16 * a + digitVal y"] by simp
  next
    case gt
    then have "y < x" "x \<noteq> y"
      using digitVal_less_iff [OF hy hx] by auto
    moreover have "hexAcc (16 * a + digitVal y) ys < hexAcc (16 * a + digitVal x) xs"
      using gt Cons.hyps by (intro hexAcc_strict) simp_all
    ultimately show ?thesis by auto
  qed
qed

lemma zeros_least:
  assumes "length s = n" and "\<And>c. c \<in> set s \<Longrightarrow> isHex c"
  shows "\<not> s < replicate n (CHR ''0'')"
  using assms
proof (induction s arbitrary: n)
  case Nil
  then show ?case by simp
next
  case (Cons c s)
  then obtain m where n: "n = Suc m" "length s = m"
    by auto
  have "CHR ''0'' \<le> c"
    using Cons.prems(2) [of c] by (auto simp: isHex_def less_eq_char_def)
  moreover have "\<not> s < replicate m (CHR ''0'')"
    using n(2) Cons.prems(2) by (intro Cons.IH) simp_all
  ultimately show ?case
    unfolding n(1) by auto
qed

lemma append_less_iff:
  fixes p p' s s' :: string
  assumes "length p = length p'"
  shows "(p @ s < p' @ s') = (p < p' \<or> p = p' \<and> s < s')"
  using assms by (induction p p' rule: list_induct2) auto

lemma text_compare_bound:
  assumes "wellFormedHash h" and "v < 2 ^ 64"
  shows "(h < renderBound v) = (leading64 h < v)"
proof -
  have len: "length h = 64" and hex: "\<And>c. c \<in> set h \<Longrightarrow> isHex c"
    using assms(1) by (simp_all add: wellFormedHash_def list_all_iff)
  define p where "p = take 16 h"
  define s where "s = drop 16 h"
  have h: "h = p @ s"
    by (simp add: p_def s_def)
  have lp: "length p = length (hexFixed 16 v)"
    using len by (simp add: p_def length_hexFixed)
  have ls: "length s = 48"
    using len by (simp add: s_def)
  have hp: "\<And>c. c \<in> set p \<Longrightarrow> isHex c"
    using hex unfolding p_def by (meson in_set_takeD)
  have hs: "\<And>c. c \<in> set s \<Longrightarrow> isHex c"
    using hex unfolding s_def by (meson in_set_dropD)
  have tail: "\<not> s < replicate 48 (CHR ''0'')"
    using ls hs by (rule zeros_least)
  have "(h < renderBound v) = (p < hexFixed 16 v \<or> p = hexFixed 16 v \<and> s < replicate 48 (CHR ''0''))"
    unfolding h renderBound_def using lp by (rule append_less_iff)
  also have "\<dots> = (p < hexFixed 16 v)"
    using tail by simp
  also have "\<dots> = (hexAcc 0 p < hexAcc 0 (hexFixed 16 v))"
    using hex_order [OF lp, where a = 0] hp hexFixed_isHex by blast
  also have "hexAcc 0 (hexFixed 16 v) = v"
    using assms(2) by (simp add: hexAcc_hexFixed)
  finally show ?thesis
    by (simp add: leading64_def p_def)
qed

text \<open>
  Hence the range \<open>[shardStart, shardEnd)\<close> of the sharded claim, compared as text, holds the
  hashes of the shard, but for the hashes whose leading 64 bits are all ones: the end of
  the last shard, rendered with zeros after its sixteen digits, is not above them.
\<close>

lemma start_below:
  fixes i T :: nat
  assumes "i < T"
  shows "i * 2 ^ 64 div T < 2 ^ 64"
proof -
  have "i * 2 ^ 64 < 2 ^ 64 * T"
    using assms by simp
  then show ?thesis
    by (rule less_mult_imp_div_less)
qed

lemma claim_range_is_shard:
  assumes "wellFormedHash h" and "i < T"
  shows "(fst (calculateShardRange i T) \<le> h \<and> h < snd (calculateShardRange i T))
           = (inShard h i T \<and> leading64 h \<noteq> 2 ^ 64 - 1)"
proof -
  define S where "S = fst (shardBounds i T)"
  define E where "E = snd (shardBounds i T)"
  have S: "S < 2 ^ 64"
    unfolding S_def using start_below [OF assms(2)] by (simp add: shardBounds_def)
  have E: "E \<le> 2 ^ 64 - 1" and E_last: "i + 1 = T \<Longrightarrow> E = 2 ^ 64 - 1"
  proof -
    show "i + 1 = T \<Longrightarrow> E = 2 ^ 64 - 1"
      by (simp add: E_def shardBounds_def)
    show "E \<le> 2 ^ 64 - 1"
    proof (cases "i + 1 = T")
      case True
      then show ?thesis by (simp add: E_def shardBounds_def)
    next
      case False
      then have "i + 1 < T" using assms(2) by simp
      then have "(i + 1) * 2 ^ 64 div T < 2 ^ 64"
        by (rule start_below)
      then show ?thesis
        using False by (simp add: E_def shardBounds_def)
    qed
  qed
  have E': "E < 2 ^ 64"
    using E by simp
  have low: "(renderBound S \<le> h) = (S \<le> leading64 h)"
    using text_compare_bound [OF assms(1) S] by (simp add: not_less [symmetric])
  have high: "(h < renderBound E) = (leading64 h < E)"
    using assms(1) E' by (rule text_compare_bound)
  have "(fst (calculateShardRange i T) \<le> h \<and> h < snd (calculateShardRange i T))
          = (S \<le> leading64 h \<and> leading64 h < E)"
    by (simp add: calculateShardRange_def S_def [symmetric] E_def [symmetric] low high)
  also have "\<dots> = (inShard h i T \<and> leading64 h \<noteq> 2 ^ 64 - 1)"
  proof (cases "i + 1 = T")
    case True
    have "inShard h i T = (S \<le> leading64 h \<and> leading64 h \<le> E)"
      using True by (simp add: inShard_def S_def E_def)
    then show ?thesis
      using E_last [OF True] by auto
  next
    case False
    have "inShard h i T = (S \<le> leading64 h \<and> leading64 h < E)"
      using False by (simp add: inShard_def S_def E_def)
    then show ?thesis
      using E by auto
  qed
  finally show ?thesis .
qed

lemma sharded_claim_is_shard:
  assumes "wellFormedHash h" and "i < T"
    and "fst (calculateShardRange i T) \<le> h" and "h < snd (calculateShardRange i T)"
  shows "inShard h i T"
  using claim_range_is_shard [OF assms(1,2)] assms(3,4) by blast

lemma all_ones_prefix_in_no_range:
  assumes "wellFormedHash h" and "leading64 h = 2 ^ 64 - 1" and "i < T"
  shows "\<not> (fst (calculateShardRange i T) \<le> h \<and> h < snd (calculateShardRange i T))"
  using claim_range_is_shard [OF assms(1,3)] assms(2) by blast

lemma all_f_hash:
  "wellFormedHash (replicate 64 (CHR ''f''))"
  "leading64 (replicate 64 (CHR ''f'')) = 2 ^ 64 - 1"
proof -
  show "wellFormedHash (replicate 64 (CHR ''f''))"
    by (simp add: wellFormedHash_def list_all_iff isHex_def less_eq_char_def)
  have "take 16 (replicate 64 (CHR ''f'')) = ''ffffffffffffffff''"
    by (simp add: replicate_numeral)
  then show "leading64 (replicate 64 (CHR ''f'')) = 2 ^ 64 - 1"
    by (simp add: leading64_def digitVal_def less_eq_char_def)
qed

section \<open>Properties of claim\<close>

lemma filter_above_nth:
  fixes f :: "'a \<Rightarrow> 'b::linorder"
  assumes "sorted_wrt (<) (map f L)" "0 < k" "k \<le> length L"
  shows "filter (\<lambda>r. f (L ! (k - 1)) < f r) L = drop k L"
proof -
  have nth_less: "f (L ! i) < f (L ! j)" if "i < j" "j < length L" for i j
    using assms(1) that by (simp add: sorted_wrt_iff_nth_less)
  have low: "filter (\<lambda>r. f (L ! (k - 1)) < f r) (take k L) = []"
  proof -
    have "\<not> f (L ! (k - 1)) < f x" if "x \<in> set (take k L)" for x
    proof -
      from that obtain i where i: "i < k" "x = L ! i"
        using assms(3) by (auto simp: in_set_conv_nth)
      show ?thesis
      proof (cases "i = k - 1")
        case True
        then show ?thesis using i by simp
      next
        case False
        then have "f (L ! i) < f (L ! (k - 1))"
          using i assms(2,3) by (intro nth_less) auto
        then show ?thesis using i by simp
      qed
    qed
    then show ?thesis by (simp add: filter_empty_conv)
  qed
  have high: "filter (\<lambda>r. f (L ! (k - 1)) < f r) (drop k L) = drop k L"
  proof -
    have "f (L ! (k - 1)) < f x" if "x \<in> set (drop k L)" for x
    proof -
      from that obtain i where i: "i < length L - k" "x = L ! (k + i)"
        by (auto simp: in_set_conv_nth)
      show ?thesis
        unfolding i(2) using i(1) assms(2,3) by (intro nth_less) auto
    qed
    then show ?thesis by (simp add: filter_id_conv)
  qed
  have "filter (\<lambda>r. f (L ! (k - 1)) < f r) L
          = filter (\<lambda>r. f (L ! (k - 1)) < f r) (take k L @ drop k L)"
    by simp
  also have "\<dots> = drop k L"
    unfolding filter_append low high by simp
  finally show ?thesis .
qed

lemma sql_limit_take:
  assumes "n \<noteq> 0" "L \<noteq> []"
  obtains k where "0 < k" "k \<le> length L" "sql_limit n L = take k L"
proof (cases "n < 0")
  case True
  then have "sql_limit n L = take (length L) L"
    by (simp add: sql_limit_def)
  then show ?thesis
    using that [of "length L"] assms(2) by simp
next
  case False
  then have "sql_limit n L = take (min (nat n) (length L)) L"
    by (simp add: sql_limit_def min_def)
  moreover have "0 < min (nat n) (length L)"
    using False assms by simp
  ultimately show ?thesis
    using that [of "min (nat n) (length L)"] by simp
qed

lemma strict_sorted_sort_key:
  fixes f :: "'a \<Rightarrow> 'b::linorder"
  assumes "distinct (map f xs)"
  shows "sorted_wrt (<) (map f (sort_key f xs))"
proof -
  have "distinct (map f (sort_key f xs))"
    using assms by (simp add: distinct_map)
  then show ?thesis
    by (simp add: strict_sorted_iff)
qed

lemma cursorWalk_from:
  assumes "n \<noteq> 0"
    and "distinct (map path_hash (filter (\<lambda>r. treatment r = t \<and> done_at r = None) q))"
  shows "cursorWalk q t n c =
           map claimResult (sort_key path_hash
             (filter (\<lambda>r. treatment r = t \<and> done_at r = None \<and> c < path_hash r) q))"
  using assms
proof (induction q t n c rule: cursorWalk.induct)
  case (1 q t n cursor)
  define F where
    "F c = filter (\<lambda>r. treatment r = t \<and> done_at r = None \<and> c < path_hash r) q" for c
  define L where "L = sort_key path_hash (F cursor)"
  have F_filter: "F c = filter (\<lambda>r. c < path_hash r)
                          (filter (\<lambda>r. treatment r = t \<and> done_at r = None) q)" for c
    unfolding F_def filter_filter by (intro filter_cong) auto
  have "distinct (map path_hash (F cursor))"
    unfolding F_filter using "1.prems"(2) by (rule distinct_map_filter)
  then have strict: "sorted_wrt (<) (map path_hash L)"
    unfolding L_def by (rule strict_sorted_sort_key)
  have batch: "claimCmd q t cursor n = map claimResult (sql_limit n L)"
    by (simp add: claimCmd_def claimQuery_def L_def F_def)
  show ?case
  proof (cases "L = []")
    case True
    then have "claimCmd q t cursor n = []"
      by (simp add: batch sql_limit_def)
    then have "cursorWalk q t n cursor = []"
      by (subst cursorWalk.simps) simp
    then show ?thesis
      using True by (simp add: L_def F_def)
  next
    case False
    then obtain k where k: "0 < k" "k \<le> length L" "sql_limit n L = take k L"
      using "1.prems"(1) sql_limit_take by blast
    have ne: "take k L \<noteq> []"
      using k(1) False by simp
    then obtain b bs where bbs: "claimCmd q t cursor n = b # bs"
      unfolding batch k(3) by (cases "map claimResult (take k L)") auto
    have "last (b # bs) = claimResult (last (take k L))"
      using bbs ne unfolding batch k(3) by (metis last_map)
    also have "last (take k L) = L ! (k - 1)"
      using k(1,2) ne by (simp add: last_conv_nth)
    finally have next_cursor: "PathHash (last (b # bs)) = path_hash (L ! (k - 1))"
      by (simp add: claimResult_def)
    have "L ! (k - 1) \<in> set (F cursor)"
      using k(1,2) unfolding L_def by (metis diff_less length_sort less_le_trans nth_mem set_sort zero_less_one L_def)
    then have above: "cursor < path_hash (L ! (k - 1))"
      by (simp add: F_def)
    have "F (path_hash (L ! (k - 1))) = filter (\<lambda>r. path_hash (L ! (k - 1)) < path_hash r) (F cursor)"
      unfolding F_def filter_filter using above by (intro filter_cong) auto
    then have "sort_key path_hash (F (path_hash (L ! (k - 1))))
                 = filter (\<lambda>r. path_hash (L ! (k - 1)) < path_hash r) L"
      by (simp add: L_def filter_sort)
    also have "\<dots> = drop k L"
      using strict k(1,2) by (rule filter_above_nth)
    finally have rest: "sort_key path_hash (F (path_hash (L ! (k - 1)))) = drop k L" .
    have "cursorWalk q t n (PathHash (last (b # bs))) = map claimResult (drop k L)"
      using "1.IH" [OF bbs "1.prems"] unfolding next_cursor rest [symmetric] F_def .
    then have "cursorWalk q t n cursor = map claimResult (take k L) @ map claimResult (drop k L)"
      using bbs unfolding batch k(3) by (subst cursorWalk.simps) (simp add: batch k(3))
    then show ?thesis
      unfolding L_def F_def by (simp flip: map_append)
  qed
qed

lemma sql_limit_subset: "set (sql_limit n xs) \<subseteq> set xs"
  by (auto simp: sql_limit_def dest: in_set_takeD)

lemma sql_limit_length: "0 \<le> n \<Longrightarrow> length (sql_limit n xs) \<le> nat n"
  by (simp add: sql_limit_def)

lemma sql_limit_sorted:
  fixes f :: "'a \<Rightarrow> 'b::linorder"
  shows "sorted (map f xs) \<Longrightarrow> sorted (map f (sql_limit n xs))"
  by (simp add: sql_limit_def take_map [symmetric] sorted_wrt_take del: take_map)

text \<open>
  C1, as amended. The claim returns at most \<open>n\<close> items when \<open>n\<close> is not negative, and every
  matching item when \<open>n\<close> is negative. For every \<open>n\<close>, each item returned is a row of the
  table that is pending, belongs to the treatment and has a hash strictly above the cursor,
  and the items are in ascending order of their hashes. With a shard, each hash is moreover
  at or above the start of the shard's range and strictly below its end.
\<close>

theorem claim_batch:
  "(0 \<le> n \<longrightarrow> length (claimCmd q t cursor n) \<le> nat n)
   \<and> (n < 0 \<longrightarrow> set (claimQuery q t cursor n)
         = {r \<in> set q. treatment r = t \<and> done_at r = None \<and> cursor < path_hash r})
   \<and> (\<forall>r \<in> set (claimQuery q t cursor n).
         r \<in> set q \<and> done_at r = None \<and> treatment r = t \<and> cursor < path_hash r)
   \<and> sorted (map path_hash (claimQuery q t cursor n))
   \<and> map PathHash (claimCmd q t cursor n) = map path_hash (claimQuery q t cursor n)
   \<and> claimSharded q t cursor None n = Inr (claimQuery q t cursor n)
   \<and> (\<forall>i T rs. claimSharded q t cursor (Some (i, T)) n = Inr rs \<longrightarrow>
         (0 \<le> n \<longrightarrow> length rs \<le> nat n)
         \<and> sorted (map path_hash rs)
         \<and> (\<forall>r \<in> set rs.
               r \<in> set q \<and> done_at r = None \<and> treatment r = t \<and> cursor < path_hash r
               \<and> fst (calculateShardRange (nat i) (nat T)) \<le> path_hash r
               \<and> path_hash r < snd (calculateShardRange (nat i) (nat T))))"
proof -
  have c1: "0 \<le> n \<longrightarrow> length (claimCmd q t cursor n) \<le> nat n"
    by (simp add: claimCmd_def claimQuery_def sql_limit_length)
  have c2: "n < 0 \<longrightarrow> set (claimQuery q t cursor n)
         = {r \<in> set q. treatment r = t \<and> done_at r = None \<and> cursor < path_hash r}"
    by (auto simp: claimQuery_def sql_limit_def)
  have c3: "\<forall>r \<in> set (claimQuery q t cursor n).
         r \<in> set q \<and> done_at r = None \<and> treatment r = t \<and> cursor < path_hash r"
    using sql_limit_subset [of n "sort_key path_hash
       (filter (\<lambda>r. treatment r = t \<and> done_at r = None \<and> cursor < path_hash r) q)"]
    by (auto simp: claimQuery_def)
  have c4: "sorted (map path_hash (claimQuery q t cursor n))"
    unfolding claimQuery_def by (intro sql_limit_sorted sorted_sort_key)
  have c5: "map PathHash (claimCmd q t cursor n) = map path_hash (claimQuery q t cursor n)"
    by (simp add: claimCmd_def claimResult_def)
  have c6: "claimSharded q t cursor None n = Inr (claimQuery q t cursor n)"
    by (simp add: claimSharded_def)
  have c7: "\<forall>i T rs. claimSharded q t cursor (Some (i, T)) n = Inr rs \<longrightarrow>
         (0 \<le> n \<longrightarrow> length rs \<le> nat n)
         \<and> sorted (map path_hash rs)
         \<and> (\<forall>r \<in> set rs.
               r \<in> set q \<and> done_at r = None \<and> treatment r = t \<and> cursor < path_hash r
               \<and> fst (calculateShardRange (nat i) (nat T)) \<le> path_hash r
               \<and> path_hash r < snd (calculateShardRange (nat i) (nat T)))"
  proof (intro allI impI)
    fix i T rs
    assume run: "claimSharded q t cursor (Some (i, T)) n = Inr rs"
    define F where "F = filter (\<lambda>r. treatment r = t \<and> done_at r = None \<and> cursor < path_hash r
                             \<and> fst (calculateShardRange (nat i) (nat T)) \<le> path_hash r
                             \<and> path_hash r < snd (calculateShardRange (nat i) (nat T))) q"
    have rs: "rs = sql_limit n (sort_key path_hash F)"
      using run by (simp add: claimSharded_def F_def split: if_splits)
    have len: "0 \<le> n \<longrightarrow> length rs \<le> nat n"
      unfolding rs by (simp add: sql_limit_length)
    have srt: "sorted (map path_hash rs)"
      unfolding rs by (intro sql_limit_sorted sorted_sort_key)
    have "set rs \<subseteq> set F"
      unfolding rs using sql_limit_subset [of n "sort_key path_hash F"] by simp
    then have mem: "\<forall>r \<in> set rs.
               r \<in> set q \<and> done_at r = None \<and> treatment r = t \<and> cursor < path_hash r
               \<and> fst (calculateShardRange (nat i) (nat T)) \<le> path_hash r
               \<and> path_hash r < snd (calculateShardRange (nat i) (nat T))"
      unfolding F_def by auto
    show "(0 \<le> n \<longrightarrow> length rs \<le> nat n)
         \<and> sorted (map path_hash rs)
         \<and> (\<forall>r \<in> set rs.
               r \<in> set q \<and> done_at r = None \<and> treatment r = t \<and> cursor < path_hash r
               \<and> fst (calculateShardRange (nat i) (nat T)) \<le> path_hash r
               \<and> path_hash r < snd (calculateShardRange (nat i) (nat T)))"
      by (rule conjI [OF len conjI [OF srt mem]])
  qed
  show ?thesis
    by (rule conjI [OF c1 conjI [OF c2 conjI [OF c3 conjI [OF c4 conjI [OF c5 conjI [OF c6 c7]]]]]])
qed

theorem claim_batch_witness:
  "length (claimCmd [ex_b\<lparr>done_at := None, result := None\<rparr>, ex_a, ex_c] ''lint'' [] 1) \<le> 1
   \<and> claimCmd [ex_b\<lparr>done_at := None, result := None\<rparr>, ex_a, ex_c] ''lint'' [] 1
       = [\<lparr>Path = ''/w/a.go'', PathHash = ''3a''\<rparr>]
   \<and> claimSharded [ex_b\<lparr>done_at := None, result := None\<rparr>, ex_a, ex_c] ''lint'' []
         (Some (0, 2)) 5 = Inr [ex_a, ex_b\<lparr>done_at := None, result := None\<rparr>]
   \<and> claimSharded [ex_b\<lparr>done_at := None, result := None\<rparr>, ex_a, ex_c] ''lint'' []
         (Some (1, 2)) 5 = Inr []"
proof -
  have "length (claimCmd [ex_b\<lparr>done_at := None, result := None\<rparr>, ex_a, ex_c] ''lint'' [] 1) \<le> 1"
    using claim_batch [of 1 "[ex_b\<lparr>done_at := None, result := None\<rparr>, ex_a, ex_c]" "''lint''" "[]",
        THEN conjunct1]
    by simp
  moreover have "claimCmd [ex_b\<lparr>done_at := None, result := None\<rparr>, ex_a, ex_c] ''lint'' [] 1
       = [\<lparr>Path = ''/w/a.go'', PathHash = ''3a''\<rparr>]"
    by (simp add: claimCmd_def claimQuery_def sql_limit_def claimResult_def
          ex_a_def ex_b_def ex_c_def)
  moreover have "claimSharded [ex_b\<lparr>done_at := None, result := None\<rparr>, ex_a, ex_c] ''lint'' []
         (Some (0, 2)) 5 = Inr [ex_a, ex_b\<lparr>done_at := None, result := None\<rparr>]"
    by (simp add: claimSharded_def ex_range_0_2 sql_limit_def ex_a_def ex_b_def ex_c_def)
  moreover have "claimSharded [ex_b\<lparr>done_at := None, result := None\<rparr>, ex_a, ex_c] ''lint'' []
         (Some (1, 2)) 5 = Inr []"
    using ex_range_1_2
    by (simp add: claimSharded_def sql_limit_def ex_a_def ex_b_def ex_c_def)
  ultimately show ?thesis
    by (intro conjI)
qed

text \<open>
  The claim as stated bounds the batch by \<open>n\<close> for every \<open>n\<close>. With \<^verbatim>\<open>--n=-1\<close> the \<^verbatim>\<open>LIMIT\<close> does
  not bound the result: two items are returned.
\<close>

theorem claim_negative_n_counterexample:
  "length (claimCmd [ex_a, ex_b\<lparr>done_at := None, result := None\<rparr>, ex_c] ''lint'' [] (- 1)) = 2"
  by (simp add: claimCmd_def claimQuery_def sql_limit_def ex_a_def ex_b_def ex_c_def)

lemma distinct_hashes_of_treatment:
  assumes "primary_key q"
  shows "distinct (map path_hash (filter (\<lambda>r. treatment r = t \<and> done_at r = None) q))"
proof -
  let ?xs = "filter (\<lambda>r. treatment r = t \<and> done_at r = None) q"
  have "distinct (map (\<lambda>r. (path_hash r, treatment r)) ?xs)"
    using assms unfolding primary_key_def by (rule distinct_map_filter)
  then have dx: "distinct ?xs" and inj: "inj_on (\<lambda>r. (path_hash r, treatment r)) (set ?xs)"
    by (simp_all only: distinct_map)
  have "inj_on path_hash (set ?xs)"
  proof (rule inj_onI)
    fix x y assume xy: "x \<in> set ?xs" "y \<in> set ?xs" "path_hash x = path_hash y"
    then have "(path_hash x, treatment x) = (path_hash y, treatment y)"
      by simp
    with inj xy(1,2) show "x = y"
      by (meson inj_onD)
  qed
  then show ?thesis
    using dx by (simp add: distinct_map)
qed

text \<open>
  C2. On a fixed table that satisfies the primary key and whose pending hashes of the
  treatment are not empty, the walk from the empty cursor with a batch size other than 0
  returns the pending rows of the treatment in ascending order of their hashes: the hashes
  increase strictly from item to item, every pending row of the treatment is returned, and
  none twice.
\<close>

theorem cursor_walk_exhausts:
  assumes "n \<noteq> 0" and "primary_key q"
    and "\<forall>r \<in> set q. treatment r = t \<and> done_at r = None \<longrightarrow> path_hash r \<noteq> []"
  shows "cursorWalk q t n [] =
           map claimResult (sort_key path_hash
             (filter (\<lambda>r. treatment r = t \<and> done_at r = None) q))
       \<and> sorted_wrt (<) (map PathHash (cursorWalk q t n []))
       \<and> set (cursorWalk q t n [])
           = claimResult ` {r \<in> set q. treatment r = t \<and> done_at r = None}
       \<and> length (cursorWalk q t n [])
           = length (filter (\<lambda>r. treatment r = t \<and> done_at r = None) q)
       \<and> distinct (cursorWalk q t n [])"
proof -
  let ?P = "\<lambda>r. treatment r = t \<and> done_at r = None"
  have d: "distinct (map path_hash (filter ?P q))"
    using assms(2) by (rule distinct_hashes_of_treatment)
  have "filter (\<lambda>r. treatment r = t \<and> done_at r = None \<and> [] < path_hash r) q = filter ?P q"
  proof (intro filter_cong refl)
    fix r assume "r \<in> set q"
    then have "treatment r = t \<and> done_at r = None \<longrightarrow> [] < path_hash r"
      using assms(3) by (cases "path_hash r") auto
    then show "(treatment r = t \<and> done_at r = None \<and> [] < path_hash r)
                 = (treatment r = t \<and> done_at r = None)"
      by blast
  qed
  then have walk: "cursorWalk q t n [] = map claimResult (sort_key path_hash (filter ?P q))"
    using cursorWalk_from [OF assms(1) d, of "[]"] by simp
  have hashes: "map PathHash (map claimResult xs) = map path_hash xs" for xs
    by (simp add: claimResult_def)
  have strict: "sorted_wrt (<) (map PathHash (cursorWalk q t n []))"
    unfolding walk hashes using d by (rule strict_sorted_sort_key)
  have elems: "set (cursorWalk q t n []) = claimResult ` {r \<in> set q. ?P r}"
    unfolding walk by auto
  have len: "length (cursorWalk q t n []) = length (filter ?P q)"
    unfolding walk by simp
  have "distinct (map PathHash (cursorWalk q t n []))"
    using strict strict_sorted_iff by blast
  then have dist: "distinct (cursorWalk q t n [])"
    by (simp add: distinct_map)
  show ?thesis
    by (rule conjI [OF walk conjI [OF strict conjI [OF elems conjI [OF len dist]]]])
qed

theorem cursor_walk_exhausts_witness:
  "cursorWalk [ex_b\<lparr>done_at := None, result := None\<rparr>, ex_a, ex_c] ''lint'' 1 []
     = [\<lparr>Path = ''/w/a.go'', PathHash = ''3a''\<rparr>, \<lparr>Path = ''/w/b.go'', PathHash = ''7c''\<rparr>]"
proof -
  have h1: "(1::int) \<noteq> 0" by simp
  have h2: "primary_key [ex_b\<lparr>done_at := None, result := None\<rparr>, ex_a, ex_c]"
    by (simp add: primary_key_def ex_a_def ex_b_def ex_c_def)
  have h3: "\<forall>r \<in> set [ex_b\<lparr>done_at := None, result := None\<rparr>, ex_a, ex_c].
      treatment r = ''lint'' \<and> done_at r = None \<longrightarrow> path_hash r \<noteq> []"
    by (simp add: ex_a_def ex_b_def ex_c_def)
  note walk = cursor_walk_exhausts [OF h1 h2 h3, THEN conjunct1]
  have "map claimResult (sort_key path_hash
             (filter (\<lambda>r. treatment r = ''lint'' \<and> done_at r = None)
                [ex_b\<lparr>done_at := None, result := None\<rparr>, ex_a, ex_c]))
      = [\<lparr>Path = ''/w/a.go'', PathHash = ''3a''\<rparr>, \<lparr>Path = ''/w/b.go'', PathHash = ''7c''\<rparr>]"
    by (simp add: claimResult_def ex_a_def ex_b_def ex_c_def)
  with walk show ?thesis
    by (rule trans)
qed

text \<open>
  The batch size must not be 0: \<^verbatim>\<open>LIMIT 0\<close> returns no row, so the first call of the walk
  returns nothing and the walk ends, whatever is pending. \<^verbatim>\<open>claimCmd\<close> passes the flag
  \<^verbatim>\<open>--n\<close> to the query as it is.
\<close>

lemma cursorWalk_zero:
  "cursorWalk q t 0 cursor = []"
  by (subst cursorWalk.simps) (simp add: claimCmd_def claimQuery_def sql_limit_def)

theorem cursor_walk_zero_counterexample:
  "cursorWalk [ex_a, ex_c] ''lint'' 0 [] = []
   \<and> claimCmd [ex_a, ex_c] ''lint'' [] 0 = []
   \<and> filter (\<lambda>r. treatment r = ''lint'' \<and> done_at r = None) [ex_a, ex_c] = [ex_a]
   \<and> primary_key [ex_a, ex_c]
   \<and> cursorWalk [ex_a, ex_c] ''lint'' 1 [] = [\<lparr>Path = ''/w/a.go'', PathHash = ''3a''\<rparr>]"
proof -
  have one: "claimCmd [ex_a, ex_c] ''lint'' [] 1 = [\<lparr>Path = ''/w/a.go'', PathHash = ''3a''\<rparr>]"
    by (simp add: claimCmd_def claimQuery_def sql_limit_def claimResult_def ex_a_def ex_c_def)
  have two: "claimCmd [ex_a, ex_c] ''lint'' ''3a'' 1 = []"
    by (simp add: claimCmd_def claimQuery_def sql_limit_def claimResult_def ex_a_def ex_c_def)
  have walk: "cursorWalk [ex_a, ex_c] ''lint'' 1 [] = [\<lparr>Path = ''/w/a.go'', PathHash = ''3a''\<rparr>]"
    by (subst cursorWalk.simps, simp add: one, subst cursorWalk.simps, simp add: two)
  have zero: "claimCmd [ex_a, ex_c] ''lint'' [] 0 = []"
    by (simp add: claimCmd_def claimQuery_def sql_limit_def)
  have pending: "filter (\<lambda>r. treatment r = ''lint'' \<and> done_at r = None) [ex_a, ex_c] = [ex_a]"
    by (simp add: ex_a_def ex_c_def)
  have pk: "primary_key [ex_a, ex_c]"
    by (simp add: primary_key_def ex_a_def ex_c_def)
  show ?thesis
    using cursorWalk_zero [of "[ex_a, ex_c]" "''lint''" "[]"] zero pending pk walk by simp
qed

end
